theory Spec2Isabelle
  imports Complex_Main "HOL-Library.Monad_Syntax" "HOL-Library.Signed_Division"
begin

section \<open>C integers\<close>

text \<open>
  The C \<^verbatim>\<open>int\<close> values of \<^verbatim>\<open>kiss_fft.c\<close> are modelled as \<^typ>\<open>int\<close>.  C's
  \<^verbatim>\<open>/\<close> and \<^verbatim>\<open>%\<close> truncate towards zero: they are \<open>sdiv\<close> and \<open>smod\<close>.
  A function returns \<^typ>\<open>'a option\<close>; \<open>None\<close> says that the call has no defined
  result: it runs forever, overflows a signed integer, or reads outside an array.
\<close>

definition INT_MAX :: int where
  "INT_MAX = 2147483647"

section \<open>The factorizer: \<^verbatim>\<open>kf_factor\<close>\<close>

text \<open>
  \<^verbatim>\<open>floor_sqrt = floor( sqrt((double)n) )\<close>.  An \<^verbatim>\<open>int\<close> converts to \<^verbatim>\<open>double\<close>
  exactly and IEEE \<^verbatim>\<open>sqrt\<close> is correctly rounded, so that for \<open>0 \<le> n\<close> the value is the
  integer square root, found here by counting up.  The square root of a negative number is a
  NaN, with which every comparison is false: \<open>None\<close>.
\<close>

function isqrt_from :: "int \<Rightarrow> int \<Rightarrow> int" where
  "isqrt_from k n = (if 0 \<le> k \<and> (k + 1) * (k + 1) \<le> n then isqrt_from (k + 1) n else k)"
  by pat_completeness auto
termination
proof (relation "measure (\<lambda>(k, n). nat (n - k))")
  show "wf (measure (\<lambda>(k, n). nat (n - k)))" by simp
next
  fix k n :: int
  assume a: "0 \<le> k \<and> (k + 1) * (k + 1) \<le> n"
  have "0 \<le> k * k"
    by simp
  moreover have "(k + 1) * (k + 1) = k * k + 2 * k + 1"
    by (simp add: algebra_simps)
  ultimately have "k < n"
    using a by linarith
  then show "((k + 1, n), (k, n)) \<in> measure (\<lambda>(k, n). nat (n - k))"
    by simp
qed

declare isqrt_from.simps [simp del]

definition floor_sqrt :: "int \<Rightarrow> int option" where
  "floor_sqrt n = (if n < 0 then None else Some (isqrt_from 0 n))"

text \<open>\<^verbatim>\<open>p > floor_sqrt\<close>, a comparison of an \<^verbatim>\<open>int\<close> with a \<^verbatim>\<open>double\<close>.\<close>

definition exceeds :: "int \<Rightarrow> int option \<Rightarrow> bool" where
  "exceeds p fs = (case fs of None \<Rightarrow> False | Some s \<Rightarrow> s < p)"

text \<open>The \<^verbatim>\<open>switch (p)\<close> that moves to the next trial radix.\<close>

definition next_trial :: "int \<Rightarrow> int" where
  "next_trial p = (if p = 4 then 2 else if p = 2 then 3 else p + 2)"

text \<open>The inner \<^verbatim>\<open>while (n % p)\<close> loop; it returns the radix \<open>p\<close> it stops at.\<close>

partial_function (option) kf_factor_trial :: "int \<Rightarrow> int \<Rightarrow> int option \<Rightarrow> int option" where
  "kf_factor_trial p n fs =
     (if n smod p \<noteq> 0
      then (let p1 = next_trial p;
                p2 = (if exceeds p1 fs then n else p1)
            in kf_factor_trial p2 n fs)
      else Some p)"

declare kf_factor_trial.simps [code]



text \<open>
  The outer \<^verbatim>\<open>do { ... } while (n > 1)\<close> loop.  The writes \<^verbatim>\<open>*facbuf++ = p; *facbuf++ = n\<close>
  build the list \<open>p1, m1, p2, m2, ...\<close>.
\<close>

partial_function (option) kf_factor_loop :: "int \<Rightarrow> int \<Rightarrow> int option \<Rightarrow> int list option" where
  "kf_factor_loop p n fs =
     Option.bind (kf_factor_trial p n fs) (\<lambda>p'.
       let n' = n sdiv p' in
       Option.bind (if n' > 1 then kf_factor_loop p' n' fs else Some [])
         (\<lambda>rest. Some (p' # n' # rest)))"

declare kf_factor_loop.simps [code]

definition kf_factor :: "int \<Rightarrow> int list option" where
  "kf_factor n = kf_factor_loop 4 n (floor_sqrt n)"

text \<open>The radices and the remaining lengths of a factor buffer \<open>p1, m1, p2, m2, ...\<close>.\<close>

fun radices :: "int list \<Rightarrow> int list" where
  "radices (p # m # rest) = p # radices rest"
| "radices _ = []"

fun remaining_lengths :: "int list \<Rightarrow> int list" where
  "remaining_lengths (p # m # rest) = m # remaining_lengths rest"
| "remaining_lengths _ = []"

text \<open>
  The comment above \<^verbatim>\<open>kf_factor\<close>: \<open>p[i] * m[i] = m[i-1]\<close> and \<open>m0 = n\<close>; each remaining
  length is the previous one divided by the radix.
\<close>

fun factor_chain :: "int \<Rightarrow> int list \<Rightarrow> bool" where
  "factor_chain prev [] = True"
| "factor_chain prev [p] = False"
| "factor_chain prev (p # m # rest) =
     (p * m = prev \<and> m = prev sdiv p \<and> factor_chain m rest)"

text \<open>The position of a trial radix in the order 4, 2, 3, 5, 7, ...\<close>

definition trial_rank :: "int \<Rightarrow> int" where
  "trial_rank p = (if p = 4 then 1 else p)"

section \<open>The factorizer as the specification words it\<close>






section \<open>The length advisory: \<^verbatim>\<open>kiss_fft_next_fast_size\<close>\<close>

text \<open>One of the loops \<^verbatim>\<open>while ( (m%d) == 0 ) m/=d;\<close>.\<close>

partial_function (option) divide_out :: "int \<Rightarrow> int \<Rightarrow> int option" where
  "divide_out d m = (if m smod d = 0 then divide_out d (m sdiv d) else Some m)"

declare divide_out.simps [code]

text \<open>The \<^verbatim>\<open>while(1)\<close> loop.  \<^verbatim>\<open>n++\<close> at \<^verbatim>\<open>INT_MAX\<close> is a signed overflow.\<close>

partial_function (option) kiss_fft_next_fast_size :: "int \<Rightarrow> int option" where
  "kiss_fft_next_fast_size n =
     Option.bind (divide_out 2 n) (\<lambda>m.
     Option.bind (divide_out 3 m) (\<lambda>m.
     Option.bind (divide_out 5 m) (\<lambda>m.
       if m \<le> 1 then Some n
       else if n = INT_MAX then None
       else kiss_fft_next_fast_size (n + 1))))"

declare kiss_fft_next_fast_size.simps [code]

text \<open>A length whose only prime factors are 2, 3 and 5.\<close>

definition fast_size :: "int \<Rightarrow> bool" where
  "fast_size m = (\<exists>a b c. m = 2 ^ a * 3 ^ b * 5 ^ c)"

section \<open>Complex samples, plans and memory\<close>

text \<open>
  \<^verbatim>\<open>kiss_fft_cpx\<close>: a pair of scalars, the fields \<^verbatim>\<open>r\<close> and \<^verbatim>\<open>i\<close>.  The scalar type
  \<open>'a\<close> stands for \<^verbatim>\<open>kiss_fft_scalar\<close>; the code uses its operators \<^verbatim>\<open>+\<close>, \<^verbatim>\<open>-\<close> and
  unary \<^verbatim>\<open>-\<close>, of which no law is assumed.
\<close>

record 'a kiss_fft_cpx =
  re :: 'a
  im :: 'a

text \<open>
  \<^verbatim>\<open>struct kiss_fft_state\<close>.  The twiddle table has \<^verbatim>\<open>nfft\<close> entries, at the indices
  \<open>0 \<le> k < nfft\<close>; \<open>twiddle\<close> is a read of the table, with no defined result outside it.
\<close>

record 'a kiss_fft_state =
  nfft :: int
  inverse_fft :: int
  factors :: "int list"
  twiddles :: "int \<Rightarrow> 'a kiss_fft_cpx"

definition twiddle :: "'a kiss_fft_state \<Rightarrow> int \<Rightarrow> 'a kiss_fft_cpx option" where
  "twiddle st k = (if 0 \<le> k \<and> k < nfft st then Some (twiddles st k) else None)"

text \<open>
  The memory of complex samples, addressed in units of one \<^verbatim>\<open>kiss_fft_cpx\<close>: a pointer
  \<^verbatim>\<open>kiss_fft_cpx *\<close> is an \<^typ>\<open>int\<close>, \<^verbatim>\<open>NULL\<close> is 0.  \<open>errlog\<close> collects the messages of
  \<^verbatim>\<open>KISS_FFT_ERROR\<close>, \<open>tmp_allocs\<close> counts the calls of \<^verbatim>\<open>KISS_FFT_TMP_ALLOC\<close>.
\<close>

record 'a world =
  mem :: "int \<Rightarrow> 'a kiss_fft_cpx"
  errlog :: "string list"
  tmp_allocs :: nat

definition store :: "int \<Rightarrow> 'a kiss_fft_cpx \<Rightarrow> 'a world \<Rightarrow> 'a world" where
  "store a v w = w\<lparr>mem := (mem w)(a := v)\<rparr>"

text \<open>The assignments \<^verbatim>\<open>p->r = v\<close> and \<^verbatim>\<open>p->i = v\<close>.\<close>

definition store_r :: "int \<Rightarrow> 'a \<Rightarrow> 'a world \<Rightarrow> 'a world" where
  "store_r a v w = store a ((mem w a)\<lparr>re := v\<rparr>) w"

definition store_i :: "int \<Rightarrow> 'a \<Rightarrow> 'a world \<Rightarrow> 'a world" where
  "store_i a v w = store a ((mem w a)\<lparr>im := v\<rparr>) w"

text \<open>
  The macros of \<^verbatim>\<open>_kiss_fft_guts.h\<close>, which is not among the sources: they are parameters.
  \<open>C_ADDTO g res a\<close> is the new value of \<open>res\<close>.  \<open>KISS_FFT_TMP_ALLOC g c n\<close> is the address
  that the \<open>c\<close>-th call returns, asked for \<open>n\<close> samples; 0 is \<^verbatim>\<open>NULL\<close>.
\<close>

record 'a guts =
  C_MUL :: "'a kiss_fft_cpx \<Rightarrow> 'a kiss_fft_cpx \<Rightarrow> 'a kiss_fft_cpx"
  C_ADD :: "'a kiss_fft_cpx \<Rightarrow> 'a kiss_fft_cpx \<Rightarrow> 'a kiss_fft_cpx"
  C_SUB :: "'a kiss_fft_cpx \<Rightarrow> 'a kiss_fft_cpx \<Rightarrow> 'a kiss_fft_cpx"
  C_ADDTO :: "'a kiss_fft_cpx \<Rightarrow> 'a kiss_fft_cpx \<Rightarrow> 'a kiss_fft_cpx"
  C_MULBYSCALAR :: "'a kiss_fft_cpx \<Rightarrow> 'a \<Rightarrow> 'a kiss_fft_cpx"
  S_MUL :: "'a \<Rightarrow> 'a \<Rightarrow> 'a"
  HALF_OF :: "'a \<Rightarrow> 'a"
  kf_cexp :: "real \<Rightarrow> 'a kiss_fft_cpx"
  KISS_FFT_TMP_ALLOC :: "nat \<Rightarrow> int \<Rightarrow> int"

text \<open>
  Modelled from the spec: the macro \<^verbatim>\<open>C_FIXDIV\<close> of \<^verbatim>\<open>_kiss_fft_guts.h\<close>.  The file
  selects the floating-point back end (\<^verbatim>\<open>#define USE_SIMD\<close>), where the division of a
  sample by the radix is an identity no-op.
\<close>

definition C_FIXDIV :: "'a kiss_fft_cpx \<Rightarrow> int \<Rightarrow> 'a kiss_fft_cpx" where
  "C_FIXDIV c d = c"

text \<open>
  Modelled from the spec: the macro \<^verbatim>\<open>KISS_FFT_ERROR\<close> of \<^verbatim>\<open>_kiss_fft_guts.h\<close> reports an
  error to the caller; here it records the message.
\<close>

definition KISS_FFT_ERROR :: "string \<Rightarrow> 'a world \<Rightarrow> 'a world" where
  "KISS_FFT_ERROR msg w = w\<lparr>errlog := errlog w @ [msg]\<rparr>"

section \<open>Loops\<close>

text \<open>
  \<^verbatim>\<open>do { body } while (cond)\<close> on a loop state; the condition is tested on the state
  after the body.  The loops of the butterflies count down to zero and run forever, in
  unbounded integers, from a count below 1.
\<close>

partial_function (option) do_while ::
  "('s \<Rightarrow> 's option) \<Rightarrow> ('s \<Rightarrow> bool) \<Rightarrow> 's \<Rightarrow> 's option" where
  "do_while body cond s =
     Option.bind (body s) (\<lambda>s'. if cond s' then do_while body cond s' else Some s')"

declare do_while.simps [code]

text \<open>\<^verbatim>\<open>for (i = lo; i < n; ++i) body\<close>.\<close>

function for_loop :: "int \<Rightarrow> int \<Rightarrow> (int \<Rightarrow> 's \<Rightarrow> 's option) \<Rightarrow> 's \<Rightarrow> 's option" where
  "for_loop i n body s =
     (if i < n then Option.bind (body i s) (\<lambda>s'. for_loop (i + 1) n body s') else Some s)"
  by pat_completeness auto
termination
  by (relation "measure (\<lambda>(i, n, body, s). nat (n - i))") auto

declare for_loop.simps [simp del]

section \<open>The butterflies\<close>

subsection \<open>\<^verbatim>\<open>kf_bfly2\<close>\<close>

text \<open>The loop state is \<open>(Fout, Fout2, tw1, m, w)\<close>; \<open>tw1\<close> is an index of the twiddle table.\<close>

definition kf_bfly2_body ::
  "'a guts \<Rightarrow> int \<Rightarrow> 'a kiss_fft_state \<Rightarrow> int \<times> int \<times> int \<times> int \<times> 'a world
   \<Rightarrow> (int \<times> int \<times> int \<times> int \<times> 'a world) option" where
  "kf_bfly2_body g fstride st = (\<lambda>(Fout, Fout2, tw1, m, w). do {
     let w = store Fout (C_FIXDIV (mem w Fout) 2) w;
     let w = store Fout2 (C_FIXDIV (mem w Fout2) 2) w;
     tw \<leftarrow> twiddle st tw1;
     let t = C_MUL g (mem w Fout2) tw;
     let tw1 = tw1 + fstride;
     let w = store Fout2 (C_SUB g (mem w Fout) t) w;
     let w = store Fout (C_ADDTO g (mem w Fout) t) w;
     Some (Fout + 1, Fout2 + 1, tw1, m - 1, w) })"

definition kf_bfly2 ::
  "'a guts \<Rightarrow> int \<Rightarrow> int \<Rightarrow> 'a kiss_fft_state \<Rightarrow> int \<Rightarrow> 'a world \<Rightarrow> 'a world option" where
  "kf_bfly2 g Fout fstride st m w =
     map_option (\<lambda>(Fout, Fout2, tw1, m, w). w)
       (do_while (kf_bfly2_body g fstride st) (\<lambda>(Fout, Fout2, tw1, m, w). m \<noteq> 0)
          (Fout, Fout + m, 0, m, w))"

subsection \<open>\<^verbatim>\<open>kf_bfly4\<close>\<close>

text \<open>The loop state is \<open>(Fout, tw1, tw2, tw3, k, w)\<close>.\<close>

definition kf_bfly4_body ::
  "('a::{plus,minus}) guts \<Rightarrow> int \<Rightarrow> 'a kiss_fft_state \<Rightarrow> int
   \<Rightarrow> int \<times> int \<times> int \<times> int \<times> int \<times> 'a world
   \<Rightarrow> (int \<times> int \<times> int \<times> int \<times> int \<times> 'a world) option" where
  "kf_bfly4_body g fstride st m = (\<lambda>(Fout, tw1, tw2, tw3, k, w). do {
     let m2 = 2 * m;
     let m3 = 3 * m;
     let w = store Fout (C_FIXDIV (mem w Fout) 4) w;
     let w = store (Fout + m) (C_FIXDIV (mem w (Fout + m)) 4) w;
     let w = store (Fout + m2) (C_FIXDIV (mem w (Fout + m2)) 4) w;
     let w = store (Fout + m3) (C_FIXDIV (mem w (Fout + m3)) 4) w;
     t1 \<leftarrow> twiddle st tw1;
     t2 \<leftarrow> twiddle st tw2;
     t3 \<leftarrow> twiddle st tw3;
     let scratch0 = C_MUL g (mem w (Fout + m)) t1;
     let scratch1 = C_MUL g (mem w (Fout + m2)) t2;
     let scratch2 = C_MUL g (mem w (Fout + m3)) t3;
     let scratch5 = C_SUB g (mem w Fout) scratch1;
     let w = store Fout (C_ADDTO g (mem w Fout) scratch1) w;
     let scratch3 = C_ADD g scratch0 scratch2;
     let scratch4 = C_SUB g scratch0 scratch2;
     let w = store (Fout + m2) (C_SUB g (mem w Fout) scratch3) w;
     let tw1 = tw1 + fstride;
     let tw2 = tw2 + fstride * 2;
     let tw3 = tw3 + fstride * 3;
     let w = store Fout (C_ADDTO g (mem w Fout) scratch3) w;
     let w = (if inverse_fft st \<noteq> 0
              then store_i (Fout + m3) (im scratch5 - re scratch4)
                  (store_r (Fout + m3) (re scratch5 + im scratch4)
                  (store_i (Fout + m) (im scratch5 + re scratch4)
                  (store_r (Fout + m) (re scratch5 - im scratch4) w)))
              else store_i (Fout + m3) (im scratch5 + re scratch4)
                  (store_r (Fout + m3) (re scratch5 - im scratch4)
                  (store_i (Fout + m) (im scratch5 - re scratch4)
                  (store_r (Fout + m) (re scratch5 + im scratch4) w))));
     Some (Fout + 1, tw1, tw2, tw3, k - 1, w) })"

definition kf_bfly4 ::
  "('a::{plus,minus}) guts \<Rightarrow> int \<Rightarrow> int \<Rightarrow> 'a kiss_fft_state \<Rightarrow> int \<Rightarrow> 'a world
   \<Rightarrow> 'a world option" where
  "kf_bfly4 g Fout fstride st m w =
     map_option (\<lambda>(Fout, tw1, tw2, tw3, k, w). w)
       (do_while (kf_bfly4_body g fstride st m) (\<lambda>(Fout, tw1, tw2, tw3, k, w). k \<noteq> 0)
          (Fout, 0, 0, 0, m, w))"

subsection \<open>\<^verbatim>\<open>kf_bfly3\<close>\<close>

text \<open>The loop state is \<open>(Fout, tw1, tw2, k, w)\<close>.\<close>

definition kf_bfly3_body ::
  "('a::{plus,minus}) guts \<Rightarrow> int \<Rightarrow> 'a kiss_fft_state \<Rightarrow> int \<Rightarrow> 'a kiss_fft_cpx
   \<Rightarrow> int \<times> int \<times> int \<times> int \<times> 'a world
   \<Rightarrow> (int \<times> int \<times> int \<times> int \<times> 'a world) option" where
  "kf_bfly3_body g fstride st m epi3 = (\<lambda>(Fout, tw1, tw2, k, w). do {
     let m2 = 2 * m;
     let w = store Fout (C_FIXDIV (mem w Fout) 3) w;
     let w = store (Fout + m) (C_FIXDIV (mem w (Fout + m)) 3) w;
     let w = store (Fout + m2) (C_FIXDIV (mem w (Fout + m2)) 3) w;
     t1 \<leftarrow> twiddle st tw1;
     t2 \<leftarrow> twiddle st tw2;
     let scratch1 = C_MUL g (mem w (Fout + m)) t1;
     let scratch2 = C_MUL g (mem w (Fout + m2)) t2;
     let scratch3 = C_ADD g scratch1 scratch2;
     let scratch0 = C_SUB g scratch1 scratch2;
     let tw1 = tw1 + fstride;
     let tw2 = tw2 + fstride * 2;
     let w = store_r (Fout + m) (re (mem w Fout) - HALF_OF g (re scratch3)) w;
     let w = store_i (Fout + m) (im (mem w Fout) - HALF_OF g (im scratch3)) w;
     let scratch0 = C_MULBYSCALAR g scratch0 (im epi3);
     let w = store Fout (C_ADDTO g (mem w Fout) scratch3) w;
     let w = store_r (Fout + m2) (re (mem w (Fout + m)) + im scratch0) w;
     let w = store_i (Fout + m2) (im (mem w (Fout + m)) - re scratch0) w;
     let w = store_r (Fout + m) (re (mem w (Fout + m)) - im scratch0) w;
     let w = store_i (Fout + m) (im (mem w (Fout + m)) + re scratch0) w;
     Some (Fout + 1, tw1, tw2, k - 1, w) })"

definition kf_bfly3 ::
  "('a::{plus,minus}) guts \<Rightarrow> int \<Rightarrow> int \<Rightarrow> 'a kiss_fft_state \<Rightarrow> int \<Rightarrow> 'a world
   \<Rightarrow> 'a world option" where
  "kf_bfly3 g Fout fstride st m w = do {
     epi3 \<leftarrow> twiddle st (fstride * m);
     map_option (\<lambda>(Fout, tw1, tw2, k, w). w)
       (do_while (kf_bfly3_body g fstride st m epi3) (\<lambda>(Fout, tw1, tw2, k, w). k \<noteq> 0)
          (Fout, 0, 0, m, w)) }"

subsection \<open>\<^verbatim>\<open>kf_bfly5\<close>\<close>

text \<open>The loop state is \<open>(Fout0, Fout1, Fout2, Fout3, Fout4, w)\<close>.\<close>

definition kf_bfly5_body ::
  "('a::{plus,minus,uminus}) guts \<Rightarrow> int \<Rightarrow> 'a kiss_fft_state \<Rightarrow> 'a kiss_fft_cpx
   \<Rightarrow> 'a kiss_fft_cpx \<Rightarrow> int \<Rightarrow> int \<times> int \<times> int \<times> int \<times> int \<times> 'a world
   \<Rightarrow> (int \<times> int \<times> int \<times> int \<times> int \<times> 'a world) option" where
  "kf_bfly5_body g fstride st ya yb u = (\<lambda>(Fout0, Fout1, Fout2, Fout3, Fout4, w). do {
     let w = store Fout0 (C_FIXDIV (mem w Fout0) 5) w;
     let w = store Fout1 (C_FIXDIV (mem w Fout1) 5) w;
     let w = store Fout2 (C_FIXDIV (mem w Fout2) 5) w;
     let w = store Fout3 (C_FIXDIV (mem w Fout3) 5) w;
     let w = store Fout4 (C_FIXDIV (mem w Fout4) 5) w;
     let scratch0 = mem w Fout0;
     t1 \<leftarrow> twiddle st (u * fstride);
     t2 \<leftarrow> twiddle st (2 * u * fstride);
     t3 \<leftarrow> twiddle st (3 * u * fstride);
     t4 \<leftarrow> twiddle st (4 * u * fstride);
     let scratch1 = C_MUL g (mem w Fout1) t1;
     let scratch2 = C_MUL g (mem w Fout2) t2;
     let scratch3 = C_MUL g (mem w Fout3) t3;
     let scratch4 = C_MUL g (mem w Fout4) t4;
     let scratch7 = C_ADD g scratch1 scratch4;
     let scratch10 = C_SUB g scratch1 scratch4;
     let scratch8 = C_ADD g scratch2 scratch3;
     let scratch9 = C_SUB g scratch2 scratch3;
     let w = store_r Fout0 (re (mem w Fout0) + (re scratch7 + re scratch8)) w;
     let w = store_i Fout0 (im (mem w Fout0) + (im scratch7 + im scratch8)) w;
     let scratch5 = \<lparr>re = re scratch0 + S_MUL g (re scratch7) (re ya) + S_MUL g (re scratch8) (re yb),
                     im = im scratch0 + S_MUL g (im scratch7) (re ya) + S_MUL g (im scratch8) (re yb)\<rparr>;
     let scratch6 = \<lparr>re = S_MUL g (im scratch10) (im ya) + S_MUL g (im scratch9) (im yb),
                     im = - S_MUL g (re scratch10) (im ya) - S_MUL g (re scratch9) (im yb)\<rparr>;
     let w = store Fout1 (C_SUB g scratch5 scratch6) w;
     let w = store Fout4 (C_ADD g scratch5 scratch6) w;
     let scratch11 = \<lparr>re = re scratch0 + S_MUL g (re scratch7) (re yb) + S_MUL g (re scratch8) (re ya),
                      im = im scratch0 + S_MUL g (im scratch7) (re yb) + S_MUL g (im scratch8) (re ya)\<rparr>;
     let scratch12 = \<lparr>re = - S_MUL g (im scratch10) (im yb) + S_MUL g (im scratch9) (im ya),
                      im = S_MUL g (re scratch10) (im yb) - S_MUL g (re scratch9) (im ya)\<rparr>;
     let w = store Fout2 (C_ADD g scratch11 scratch12) w;
     let w = store Fout3 (C_SUB g scratch11 scratch12) w;
     Some (Fout0 + 1, Fout1 + 1, Fout2 + 1, Fout3 + 1, Fout4 + 1, w) })"

definition kf_bfly5 ::
  "('a::{plus,minus,uminus}) guts \<Rightarrow> int \<Rightarrow> int \<Rightarrow> 'a kiss_fft_state \<Rightarrow> int \<Rightarrow> 'a world
   \<Rightarrow> 'a world option" where
  "kf_bfly5 g Fout fstride st m w = do {
     ya \<leftarrow> twiddle st (fstride * m);
     yb \<leftarrow> twiddle st (fstride * 2 * m);
     map_option (\<lambda>(Fout0, Fout1, Fout2, Fout3, Fout4, w). w)
       (for_loop 0 m (kf_bfly5_body g fstride st ya yb)
          (Fout, Fout + m, Fout + 2 * m, Fout + 3 * m, Fout + 4 * m, w)) }"

subsection \<open>\<^verbatim>\<open>kf_bfly_generic\<close>\<close>

text \<open>
  The conversion of a \<^verbatim>\<open>size_t\<close> value to \<^verbatim>\<open>int\<close>: the low 32 bits, in two's complement.
  \<^verbatim>\<open>twidx += fstride * k\<close> adds in \<^verbatim>\<open>size_t\<close>, since \<^verbatim>\<open>fstride\<close> is one, and converts
  the sum to the \<^verbatim>\<open>int\<close> variable \<^verbatim>\<open>twidx\<close>.
\<close>

definition int_of_size_t :: "int \<Rightarrow> int" where
  "int_of_size_t v = signed_take_bit 31 v"

text \<open>
  The first inner loop copies \<open>p\<close> samples to the scratch array; its state is \<open>(k, scratch)\<close>.
  The scratch array comes from \<^verbatim>\<open>KISS_FFT_TMP_ALLOC\<close> with no contents: it is a partial map,
  and the read of an entry never written has no defined result.
\<close>

definition kf_bfly_generic_load ::
  "int \<Rightarrow> int \<Rightarrow> int \<Rightarrow> 'a world \<Rightarrow> int \<Rightarrow> int \<times> (int \<Rightarrow> 'a kiss_fft_cpx option)
   \<Rightarrow> (int \<times> (int \<Rightarrow> 'a kiss_fft_cpx option)) option" where
  "kf_bfly_generic_load Fout m p w q1 = (\<lambda>(k, scratch). do {
     let scratch = scratch(q1 \<mapsto> mem w (Fout + k));
     c \<leftarrow> scratch q1;
     let scratch = scratch(q1 \<mapsto> C_FIXDIV c p);
     Some (k + m, scratch) })"

text \<open>The innermost loop accumulates into \<open>Fout[k]\<close>; its state is \<open>(twidx, w)\<close>.\<close>

definition kf_bfly_generic_acc ::
  "'a guts \<Rightarrow> int \<Rightarrow> int \<Rightarrow> 'a kiss_fft_state \<Rightarrow> int \<Rightarrow> (int \<Rightarrow> 'a kiss_fft_cpx option)
   \<Rightarrow> int \<Rightarrow> int \<Rightarrow> int \<times> 'a world \<Rightarrow> (int \<times> 'a world) option" where
  "kf_bfly_generic_acc g Fout fstride st Norig scratch k q = (\<lambda>(twidx, w). do {
     let twidx = int_of_size_t (twidx + fstride * k);
     let twidx = (if twidx \<ge> Norig then twidx - Norig else twidx);
     c \<leftarrow> scratch q;
     tw \<leftarrow> twiddle st twidx;
     let t = C_MUL g c tw;
     let w = store (Fout + k) (C_ADDTO g (mem w (Fout + k)) t) w;
     Some (twidx, w) })"

text \<open>The second inner loop writes the \<open>p\<close> outputs; its state is \<open>(k, w)\<close>.\<close>

definition kf_bfly_generic_out ::
  "'a guts \<Rightarrow> int \<Rightarrow> int \<Rightarrow> 'a kiss_fft_state \<Rightarrow> int \<Rightarrow> int \<Rightarrow> int
   \<Rightarrow> (int \<Rightarrow> 'a kiss_fft_cpx option) \<Rightarrow> int \<Rightarrow> int \<times> 'a world \<Rightarrow> (int \<times> 'a world) option" where
  "kf_bfly_generic_out g Fout fstride st Norig m p scratch q1 = (\<lambda>(k, w). do {
     let twidx = 0;
     c \<leftarrow> scratch 0;
     let w = store (Fout + k) c w;
     (twidx, w) \<leftarrow> for_loop 1 p (kf_bfly_generic_acc g Fout fstride st Norig scratch k) (twidx, w);
     Some (k + m, w) })"

text \<open>The body of the loop over \<open>u\<close>.\<close>

definition kf_bfly_generic_body ::
  "'a guts \<Rightarrow> int \<Rightarrow> int \<Rightarrow> 'a kiss_fft_state \<Rightarrow> int \<Rightarrow> int \<Rightarrow> int
   \<Rightarrow> int \<Rightarrow> 'a world \<Rightarrow> 'a world option" where
  "kf_bfly_generic_body g Fout fstride st Norig m p u w = do {
     let k = u;
     (k, scratch) \<leftarrow> for_loop 0 p (kf_bfly_generic_load Fout m p w) (k, Map.empty);
     let k = u;
     (k, w) \<leftarrow> for_loop 0 p (kf_bfly_generic_out g Fout fstride st Norig m p scratch) (k, w);
     Some w }"

definition kf_bfly_generic ::
  "'a guts \<Rightarrow> int \<Rightarrow> int \<Rightarrow> 'a kiss_fft_state \<Rightarrow> int \<Rightarrow> int \<Rightarrow> 'a world \<Rightarrow> 'a world option" where
  "kf_bfly_generic g Fout fstride st m p w =
     (let Norig = nfft st;
          scratch = KISS_FFT_TMP_ALLOC g (tmp_allocs w) p;
          w = w\<lparr>tmp_allocs := Suc (tmp_allocs w)\<rparr>
      in if scratch = 0 then Some (KISS_FFT_ERROR ''Memory allocation failed.'' w)
         else for_loop 0 m (kf_bfly_generic_body g Fout fstride st Norig m p) w)"

section \<open>The recursive decimation driver: \<^verbatim>\<open>kf_work\<close>\<close>

text \<open>The \<^verbatim>\<open>switch (p)\<close> that recombines the \<open>p\<close> smaller DFTs.\<close>

definition kf_bfly ::
  "('a::{plus,minus,uminus}) guts \<Rightarrow> int \<Rightarrow> int \<Rightarrow> 'a kiss_fft_state \<Rightarrow> int \<Rightarrow> int
   \<Rightarrow> 'a world \<Rightarrow> 'a world option" where
  "kf_bfly g Fout fstride st m p w =
     (if p = 2 then kf_bfly2 g Fout fstride st m w
      else if p = 3 then kf_bfly3 g Fout fstride st m w
      else if p = 4 then kf_bfly4 g Fout fstride st m w
      else if p = 5 then kf_bfly5 g Fout fstride st m w
      else kf_bfly_generic g Fout fstride st m p w)"

text \<open>
  \<open>factors'\<close> is the rest of the factor buffer, read by \<^verbatim>\<open>*factors++\<close>; a read past its end
  has no defined result.  The state of both loops is \<open>(Fout, f, w)\<close>.  This is the build
  without \<^verbatim>\<open>_OPENMP\<close>.
\<close>

fun kf_work ::
  "('a::{plus,minus,uminus}) guts \<Rightarrow> int \<Rightarrow> int \<Rightarrow> int \<Rightarrow> int \<Rightarrow> int list
   \<Rightarrow> 'a kiss_fft_state \<Rightarrow> 'a world \<Rightarrow> 'a world option" where
  "kf_work g Fout f fstride in_stride (p # m # factors') st w =
     (let Fout_beg = Fout;
          Fout_end = Fout + p * m
      in Option.bind
           (if m = 1
            then do_while
                   (\<lambda>(Fout, f, w). Some (Fout + 1, f + fstride * in_stride, store Fout (mem w f) w))
                   (\<lambda>(Fout, f, w). Fout \<noteq> Fout_end) (Fout, f, w)
            else do_while
                   (\<lambda>(Fout, f, w).
                      Option.bind (kf_work g Fout f (fstride * p) in_stride factors' st w)
                        (\<lambda>w. Some (Fout + m, f + fstride * in_stride, w)))
                   (\<lambda>(Fout, f, w). Fout \<noteq> Fout_end) (Fout, f, w))
           (\<lambda>(Fout, f, w). kf_bfly g Fout_beg fstride st m p w))"
| "kf_work g Fout f fstride in_stride [] st w = None"
| "kf_work g Fout f fstride in_stride [p] st w = None"

section \<open>The plan and the transform entry points\<close>

text \<open>
  \<^verbatim>\<open>kiss_fft_alloc\<close>.  \<open>storage\<close> says whether \<^verbatim>\<open>st\<close> is not \<^verbatim>\<open>NULL\<close> after the choice
  between \<^verbatim>\<open>KISS_FFT_MALLOC\<close> and the caller's \<^verbatim>\<open>mem\<close>; without storage the result is
  \<^verbatim>\<open>NULL\<close>: \<open>Some None\<close>.  The phase is computed in real numbers.
\<close>

definition kiss_fft_alloc ::
  "'a guts \<Rightarrow> int \<Rightarrow> int \<Rightarrow> bool \<Rightarrow> 'a kiss_fft_state option option" where
  "kiss_fft_alloc g nfft' inverse_fft' storage =
     (if storage
      then Option.bind (kf_factor nfft') (\<lambda>fs.
             Some (Some \<lparr>nfft = nfft', inverse_fft = inverse_fft', factors = fs,
                twiddles = (\<lambda>i.
                  let phase = - 2 * pi * real_of_int i / real_of_int nfft';
                      phase = (if inverse_fft' \<noteq> 0 then phase * (- 1) else phase)
                  in kf_cexp g phase)\<rparr>))
      else Some None)"

text \<open>\<^verbatim>\<open>memcpy\<close> of \<open>n\<close> samples between regions that do not overlap.\<close>

definition memcpy_cpx :: "int \<Rightarrow> int \<Rightarrow> int \<Rightarrow> 'a world \<Rightarrow> 'a world" where
  "memcpy_cpx dst src n w =
     w\<lparr>mem := (\<lambda>a. if dst \<le> a \<and> a < dst + n then mem w (src + (a - dst)) else mem w a)\<rparr>"

definition kiss_fft_stride ::
  "('a::{plus,minus,uminus}) guts \<Rightarrow> 'a kiss_fft_state \<Rightarrow> int \<Rightarrow> int \<Rightarrow> int \<Rightarrow> 'a world
   \<Rightarrow> 'a world option" where
  "kiss_fft_stride g st fin fout in_stride w =
     (if fin = fout
      then (if fout = 0 then Some (KISS_FFT_ERROR ''fout buffer NULL.'' w)
            else let tmpbuf = KISS_FFT_TMP_ALLOC g (tmp_allocs w) (nfft st);
                     w = w\<lparr>tmp_allocs := Suc (tmp_allocs w)\<rparr>
                 in if tmpbuf = 0 then Some (KISS_FFT_ERROR ''Memory allocation error.'' w)
                    else Option.bind (kf_work g tmpbuf fin 1 in_stride (factors st) st w)
                           (\<lambda>w. Some (memcpy_cpx fout tmpbuf (nfft st) w)))
      else kf_work g fout fin 1 in_stride (factors st) st w)"

definition kiss_fft ::
  "('a::{plus,minus,uminus}) guts \<Rightarrow> 'a kiss_fft_state \<Rightarrow> int \<Rightarrow> int \<Rightarrow> 'a world
   \<Rightarrow> 'a world option" where
  "kiss_fft g cfg fin fout w = kiss_fft_stride g cfg fin fout 1 w"

section \<open>Transplanting a block of memory\<close>

text \<open>
  \<open>graft F n d w2 w\<close> is the world \<open>w2\<close> in which the block of \<open>n\<close> samples at \<open>F\<close> holds
  what \<open>w\<close> holds in the block at \<open>F - d\<close>.  It relates a run on a block to a run on
  another block with the same contents.
\<close>

definition graft :: "int \<Rightarrow> int \<Rightarrow> int \<Rightarrow> 'a world \<Rightarrow> 'a world \<Rightarrow> 'a world" where
  "graft F n d w2 w =
     w2\<lparr>mem := (\<lambda>a. if F \<le> a \<and> a < F + n then mem w (a - d) else mem w2 a)\<rparr>"

text \<open>
  Two runs of the driver, the first writing the block of \<open>n\<close> samples at \<open>F - d\<close>, the
  second the block at \<open>F\<close>.  \<open>related F n d m1 m2 h w1 w2\<close> holds of their worlds when
  the first run has left the memory \<open>m1\<close> untouched outside its block, and the second world
  holds, below the position \<open>h\<close> that the writes have reached, what the first holds in its
  block, and outside the block the memory \<open>m2\<close>.
\<close>

definition related ::
  "int \<Rightarrow> int \<Rightarrow> int \<Rightarrow> (int \<Rightarrow> 'a kiss_fft_cpx) \<Rightarrow> (int \<Rightarrow> 'a kiss_fft_cpx) \<Rightarrow> int
   \<Rightarrow> 'a world \<Rightarrow> 'a world \<Rightarrow> bool" where
  "related F n d m1 m2 h w1 w2 \<longleftrightarrow>
     (\<forall>a. \<not> (F - d \<le> a \<and> a < F - d + n) \<longrightarrow> mem w1 a = m1 a) \<and>
     (\<forall>a. \<not> (h \<le> a \<and> a < F + n) \<longrightarrow>
        mem w2 a = (if F \<le> a \<and> a < F + n then mem w1 (a - d) else m2 a))"

text \<open>
  A factor buffer that \<^verbatim>\<open>kf_work\<close> can walk for a block of \<open>n\<close> samples: radices and
  remaining lengths are positive, \<open>p * m = n\<close>, and the buffer goes on until the remaining
  length is 1.
\<close>

fun stage_factors :: "int \<Rightarrow> int list \<Rightarrow> bool" where
  "stage_factors n (p # m # rest) =
     (1 \<le> p \<and> 1 \<le> m \<and> p * m = n \<and> (m = 1 \<or> stage_factors m rest))"
| "stage_factors n [] = False"
| "stage_factors n [p] = False"

section \<open>The direction flag\<close>



section \<open>Concrete parameters\<close>

text \<open>
  An instance of the parameters over the integers, for evaluating the definitions: the
  usual complex arithmetic, and an allocator given as an argument.  \<open>plan4\<close> is the forward
  plan of length 4, whose twiddle factors \<open>1, -i, -1, i\<close> are integers.
\<close>

definition int_guts :: "(nat \<Rightarrow> int \<Rightarrow> int) \<Rightarrow> int guts" where
  "int_guts alloc =
     \<lparr>C_MUL = (\<lambda>a b. \<lparr>re = re a * re b - im a * im b, im = re a * im b + im a * re b\<rparr>),
      C_ADD = (\<lambda>a b. \<lparr>re = re a + re b, im = im a + im b\<rparr>),
      C_SUB = (\<lambda>a b. \<lparr>re = re a - re b, im = im a - im b\<rparr>),
      C_ADDTO = (\<lambda>a b. \<lparr>re = re a + re b, im = im a + im b\<rparr>),
      C_MULBYSCALAR = (\<lambda>a s. \<lparr>re = re a * s, im = im a * s\<rparr>),
      S_MUL = (\<lambda>a b. a * b),
      HALF_OF = (\<lambda>a. a div 2),
      kf_cexp = (\<lambda>x. \<lparr>re = 0, im = 0\<rparr>),
      KISS_FFT_TMP_ALLOC = alloc\<rparr>"

definition plan4 :: "int kiss_fft_state" where
  "plan4 = \<lparr>nfft = 4, inverse_fft = 0, factors = [4, 1],
     twiddles = (\<lambda>k. if k = 0 then \<lparr>re = 1, im = 0\<rparr> else if k = 1 then \<lparr>re = 0, im = - 1\<rparr>
                   else if k = 2 then \<lparr>re = - 1, im = 0\<rparr> else \<lparr>re = 0, im = 1\<rparr>)\<rparr>"

text \<open>A memory that holds the sample \<open>(a, 0)\<close> at every address \<open>a\<close>.\<close>

definition ramp_world :: "int world" where
  "ramp_world = \<lparr>mem = (\<lambda>a. \<lparr>re = a, im = 0\<rparr>), errlog = [], tmp_allocs = 0\<rparr>"

section \<open>Properties of the factorizer\<close>

lemma smod_nonneg: "0 \<le> a \<Longrightarrow> 0 \<le> b \<Longrightarrow> (a::int) smod b = a mod b"
  by (cases "a = 0") (simp_all add: signed_modulo_int_def)

lemma sdiv_nonneg: "0 \<le> a \<Longrightarrow> 0 \<le> b \<Longrightarrow> (a::int) sdiv b = a div b"
  by (cases "a = 0"; cases "b = 0") (simp_all add: signed_divide_int_def)

lemma next_trial_rank: "2 \<le> p \<Longrightarrow> trial_rank p < trial_rank (next_trial p)"
  by (auto simp: trial_rank_def next_trial_def)

lemma next_trial_ge2: "2 \<le> p \<Longrightarrow> 2 \<le> next_trial p"
  by (auto simp: next_trial_def)

lemma kf_factor_trial_self: "1 \<le> n \<Longrightarrow> kf_factor_trial n n fs = Some n"
  by (subst kf_factor_trial.simps) (simp add: smod_nonneg)

lemma kf_factor_trial_total:
  assumes "1 \<le> n" "2 \<le> p"
  shows "\<exists>q. kf_factor_trial p n (Some F) = Some q \<and> q dvd n \<and> 1 \<le> q \<and> (2 \<le> n \<longrightarrow> 2 \<le> q)"
  using assms
proof (induction "nat (F + 3 - trial_rank p)" arbitrary: p rule: less_induct)
  case less
  show ?case
  proof (cases "n smod p = 0")
    case True
    with less.prems have "p dvd n"
      by (simp add: smod_nonneg dvd_eq_mod_eq_0)
    with True less.prems show ?thesis
      by (subst kf_factor_trial.simps) simp
  next
    case False
    show ?thesis
    proof (cases "exceeds (next_trial p) (Some F)")
      case True
      with False less.prems show ?thesis
        by (subst kf_factor_trial.simps) (simp add: kf_factor_trial_self)
    next
      case ex: False
      then have le: "next_trial p \<le> F"
        by (simp add: exceeds_def)
      have "trial_rank (next_trial p) \<le> next_trial p"
        by (simp add: trial_rank_def)
      with le next_trial_rank [OF less.prems(2)]
      have "nat (F + 3 - trial_rank (next_trial p)) < nat (F + 3 - trial_rank p)"
        by linarith
      from less.hyps [OF this less.prems(1) next_trial_ge2 [OF less.prems(2)]]
      show ?thesis
        using False ex by (subst kf_factor_trial.simps) simp
    qed
  qed
qed

lemma kf_factor_loop_total:
  assumes "1 \<le> n" "2 \<le> p"
  shows "\<exists>fs. kf_factor_loop p n (Some F) = Some fs \<and> factor_chain n fs
           \<and> prod_list (radices fs) = n \<and> stage_factors n fs"
  using assms
proof (induction "nat n" arbitrary: n p rule: less_induct)
  case less
  from kf_factor_trial_total [OF less.prems, of F]
  obtain q where q: "kf_factor_trial p n (Some F) = Some q" "q dvd n" "1 \<le> q" "2 \<le> n \<longrightarrow> 2 \<le> q"
    by blast
  have sd: "n sdiv q = n div q"
    using less.prems q by (simp add: sdiv_nonneg)
  have qn: "q * (n div q) = n"
    using q by simp
  show ?case
  proof (cases "1 < n div q")
    case True
    have "1 * 2 \<le> q * (n div q)"
      using True q by (intro mult_mono) auto
    with qn have "2 \<le> n" by simp
    with q have q2: "2 \<le> q" by simp
    have lt: "n div q < n"
      using q2 less.prems by (simp add: int_div_less_self)
    then have "nat (n div q) < nat n" using True by simp
    from less.hyps [OF this _ q2] True
    obtain rest where r: "kf_factor_loop q (n div q) (Some F) = Some rest"
        "factor_chain (n div q) rest" "prod_list (radices rest) = n div q"
        "stage_factors (n div q) rest"
      by auto
    show ?thesis
      using q r True sd qn
      by (subst kf_factor_loop.simps) simp
  next
    case False
    have "0 < n div q"
      using q less.prems by (simp add: pos_imp_zdiv_pos_iff zdvd_imp_le)
    with False have "n div q = 1" by simp
    with qn have "q = n" by simp
    then show ?thesis
      using q False sd \<open>n div q = 1\<close> less.prems
      by (subst kf_factor_loop.simps) simp
  qed
qed

lemma floor_sqrt_Some: "0 \<le> n \<Longrightarrow> floor_sqrt n = Some (isqrt_from 0 n)"
  by (simp add: floor_sqrt_def)

text \<open>
  Claim C3.  For every length \<open>N \<ge> 1\<close> the factorizer returns a factor buffer; the product
  of its radices is \<open>N\<close>, the first pair satisfies \<open>p * m = N\<close>, and every remaining length
  is the previous remaining length divided by the radix of its pair.
\<close>

theorem kf_factor_product_chain:
  assumes "1 \<le> N"
  shows "\<exists>fs. kf_factor N = Some fs \<and> prod_list (radices fs) = N \<and> factor_chain N fs"
proof -
  from assms have "floor_sqrt N = Some (isqrt_from 0 N)"
    by (simp add: floor_sqrt_Some)
  with kf_factor_loop_total [OF assms, of 4 "isqrt_from 0 N"] show ?thesis
    by (auto simp: kf_factor_def)
qed

theorem kf_factor_product_chain_witness:
  "(1::int) \<le> 360 \<and> kf_factor 360 = Some [4, 90, 2, 45, 3, 15, 3, 5, 5, 1]
   \<and> prod_list (radices [4, 90, 2, 45, 3, 15, 3, 5, 5, 1]) = 360
   \<and> factor_chain 360 [4, 90, 2, 45, 3, 15, 3, 5, 5, 1]"
proof -
  have e: "kf_factor 360 = Some [4, 90, 2, 45, 3, 15, 3, 5, 5, 1]"
    by code_simp
  from kf_factor_product_chain [of 360] e show ?thesis
    by simp
qed

section \<open>The square-root cutoff of the factorizer\<close>





















section \<open>Properties of the length advisory\<close>

lemma divide_out_stop: "1 \<le> m \<Longrightarrow> 2 \<le> d \<Longrightarrow> \<not> d dvd m \<Longrightarrow> divide_out d m = Some m"
  by (subst divide_out.simps) (simp add: smod_nonneg dvd_eq_mod_eq_0)

lemma divide_out_step: "1 \<le> m \<Longrightarrow> 2 \<le> d \<Longrightarrow> divide_out d (d * m) = divide_out d m"
  by (subst divide_out.simps) (simp add: smod_nonneg sdiv_nonneg)

lemma divide_out_power: "1 \<le> m \<Longrightarrow> 2 \<le> d \<Longrightarrow> divide_out d (d ^ a * m) = divide_out d m"
proof (induction a)
  case 0
  then show ?case by simp
next
  case (Suc a)
  have "1 * 1 \<le> d ^ a * m"
    using Suc.prems by (intro mult_mono) auto
  then have "divide_out d (d * (d ^ a * m)) = divide_out d (d ^ a * m)"
    using Suc.prems by (intro divide_out_step) auto
  with Suc show ?case by (simp add: mult.assoc)
qed

lemma divide_out_total:
  assumes "1 \<le> m" "2 \<le> d"
  shows "\<exists>a m'. divide_out d m = Some m' \<and> m = d ^ a * m' \<and> 1 \<le> m' \<and> \<not> d dvd m'"
  using assms(1)
proof (induction "nat m" arbitrary: m rule: less_induct)
  case less
  show ?case
  proof (cases "d dvd m")
    case False
    with less.prems assms(2) have "divide_out d m = Some m"
      by (rule divide_out_stop)
    with False less.prems show ?thesis
      by (intro exI [of _ 0] exI [of _ m]) simp
  next
    case True
    then obtain k where k: "m = d * k" ..
    have k1: "1 \<le> k"
    proof (rule ccontr)
      assume "\<not> 1 \<le> k"
      then have "k \<le> 0" by simp
      with assms(2) have "d * k \<le> 0"
        by (simp add: mult_le_0_iff)
      with k less.prems show False by simp
    qed
    have "k < m"
      using k k1 assms(2) by (simp add: mult_less_cancel_right2)
    then have "nat k < nat m" using k1 by simp
    from less.hyps [OF this k1] obtain a m' where
      r: "divide_out d k = Some m'" "k = d ^ a * m'" "1 \<le> m'" "\<not> d dvd m'"
      by blast
    have "divide_out d m = Some m'"
      using divide_out_step [OF k1 assms(2)] k r(1) by simp
    with r k show ?thesis
      by (intro exI [of _ "Suc a"] exI [of _ m']) simp
  qed
qed

lemma not_3_dvd_5_power: "\<not> (3::int) dvd 5 ^ c"
proof (induction c)
  case 0
  show ?case by simp
next
  case (Suc c)
  have h: "3 dvd 5 * x \<Longrightarrow> 3 dvd x" for x :: int
    by presburger
  show ?case
  proof
    assume "(3::int) dvd 5 ^ Suc c"
    then have "(3::int) dvd 5 * 5 ^ c" by simp
    then have "(3::int) dvd 5 ^ c" by (rule h)
    with Suc show False by blast
  qed
qed

lemma divide_out_fast_size:
  "divide_out 2 (2 ^ a * 3 ^ b * 5 ^ c) = Some (3 ^ b * 5 ^ c)"
  "divide_out 3 (3 ^ b * 5 ^ c) = Some (5 ^ c)"
  "divide_out 5 (5 ^ c) = Some 1"
proof -
  have p35: "(1::int) \<le> 3 ^ b * 5 ^ c"
    using mult_mono [of 1 "3 ^ b" 1 "5 ^ c :: int"] by simp
  have "divide_out 2 (2 ^ a * (3 ^ b * 5 ^ c)) = divide_out 2 (3 ^ b * 5 ^ c)"
    using p35 by (intro divide_out_power) auto
  moreover have "divide_out 2 (3 ^ b * 5 ^ c) = Some (3 ^ b * 5 ^ c)"
    using p35 by (intro divide_out_stop) auto
  ultimately show "divide_out 2 (2 ^ a * 3 ^ b * 5 ^ c) = Some (3 ^ b * 5 ^ c)"
    by (simp add: mult.assoc)
  have "divide_out 3 (3 ^ b * 5 ^ c) = divide_out 3 (5 ^ c)"
    by (intro divide_out_power) auto
  moreover have "divide_out 3 (5 ^ c) = Some (5 ^ c)"
    using not_3_dvd_5_power by (intro divide_out_stop) auto
  ultimately show "divide_out 3 (3 ^ b * 5 ^ c) = Some (5 ^ c)"
    by simp
  have "divide_out 5 (5 ^ c * 1) = divide_out 5 1"
    by (intro divide_out_power) auto
  moreover have "divide_out 5 1 = Some 1"
    by (intro divide_out_stop) auto
  ultimately show "divide_out 5 (5 ^ c) = Some 1"
    by simp
qed

text \<open>One round of the \<^verbatim>\<open>while(1)\<close> loop: the test \<^verbatim>\<open>m<=1\<close> decides \<open>fast_size\<close>.\<close>

lemma divide_out_235:
  assumes "1 \<le> n"
  shows "\<exists>m. Option.bind (divide_out 2 n) (\<lambda>m. Option.bind (divide_out 3 m) (divide_out 5)) = Some m
           \<and> (m \<le> 1 \<longleftrightarrow> fast_size n)"
proof (cases "fast_size n")
  case True
  then obtain a b c where "n = 2 ^ a * 3 ^ b * 5 ^ c"
    unfolding fast_size_def by blast
  with True show ?thesis
    by (simp add: divide_out_fast_size)
next
  case False
  from divide_out_total [OF assms, of 2] obtain a m2 where
    m2: "divide_out 2 n = Some m2" "n = 2 ^ a * m2" "1 \<le> m2"
    by auto
  from divide_out_total [OF m2(3), of 3] obtain b m3 where
    m3: "divide_out 3 m2 = Some m3" "m2 = 3 ^ b * m3" "1 \<le> m3"
    by auto
  from divide_out_total [OF m3(3), of 5] obtain c m5 where
    m5: "divide_out 5 m3 = Some m5" "m3 = 5 ^ c * m5" "1 \<le> m5"
    by auto
  have "m5 \<noteq> 1"
  proof
    assume "m5 = 1"
    with m2 m3 m5 have "n = 2 ^ a * 3 ^ b * 5 ^ c"
      by simp
    with False show False
      unfolding fast_size_def by blast
  qed
  with m5(3) have "\<not> m5 \<le> 1" by simp
  with False m2 m3 m5 show ?thesis by simp
qed

lemma fast_size_pos: "fast_size m \<Longrightarrow> 1 \<le> m"
proof -
  assume "fast_size m"
  then obtain a b c where m: "m = 2 ^ a * 3 ^ b * 5 ^ c"
    unfolding fast_size_def by blast
  have "(1::int) * 1 * 1 \<le> 2 ^ a * 3 ^ b * 5 ^ c"
    by (intro mult_mono) auto
  with m show ?thesis by simp
qed

lemma kiss_fft_next_fast_size_least:
  assumes "1 \<le> n" "n \<le> m0" "m0 \<le> INT_MAX" "fast_size m0"
  shows "\<exists>m. kiss_fft_next_fast_size n = Some m \<and> n \<le> m \<and> fast_size m
           \<and> (\<forall>k. n \<le> k \<and> k < m \<longrightarrow> \<not> fast_size k)"
  using assms(1,2)
proof (induction "nat (m0 - n)" arbitrary: n rule: less_induct)
  case less
  from divide_out_235 [OF less.prems(1)] obtain m where
    m: "Option.bind (divide_out 2 n) (\<lambda>m. Option.bind (divide_out 3 m) (divide_out 5)) = Some m"
       "m \<le> 1 \<longleftrightarrow> fast_size n"
    by blast
  then obtain m2 m3 where s: "divide_out 2 n = Some m2" "divide_out 3 m2 = Some m3"
      "divide_out 5 m3 = Some m"
    by (auto simp: bind_eq_Some_conv)
  show ?case
  proof (cases "fast_size n")
    case True
    with m s have "kiss_fft_next_fast_size n = Some n"
      by (subst kiss_fft_next_fast_size.simps) simp
    with True show ?thesis by auto
  next
    case False
    with assms(4) less.prems have lt: "n < m0"
      by (cases "n = m0") auto
    with assms(3) have ne: "n \<noteq> INT_MAX" by simp
    have step: "kiss_fft_next_fast_size n = kiss_fft_next_fast_size (n + 1)"
      using False m s ne by (subst kiss_fft_next_fast_size.simps) simp
    have "nat (m0 - (n + 1)) < nat (m0 - n)"
      using lt by simp
    from less.hyps [OF this] less.prems lt obtain r where
      r: "kiss_fft_next_fast_size (n + 1) = Some r" "n + 1 \<le> r" "fast_size r"
         "\<forall>k. n + 1 \<le> k \<and> k < r \<longrightarrow> \<not> fast_size k"
      by auto
    have "\<not> fast_size k" if "n \<le> k \<and> k < r" for k
      using that r(4) False by (cases "k = n") auto
    with r step show ?thesis
      by (intro exI [of _ r]) simp
  qed
qed

lemma divide_out_zero: "divide_out d m = Some y \<Longrightarrow> m \<noteq> 0"
proof (rule divide_out.raw_induct [where P = "\<lambda>d m y. m \<noteq> 0"])
  fix f d m y
  assume ih: "\<And>d m y. f d m = Some y \<Longrightarrow> m \<noteq> 0"
    and st: "(if m smod d = 0 then f d (m sdiv d) else Some m) = Some (y::int)"
  show "m \<noteq> 0"
  proof
    assume "m = 0"
    with st have "f d 0 = Some y" by simp
    with ih show False by blast
  qed
qed

text \<open>At \<open>n = 0\<close> the first inner loop never ends: \<open>m\<close> stays 0.\<close>

lemma kiss_fft_next_fast_size_0: "kiss_fft_next_fast_size 0 = None"
proof -
  have "divide_out 2 0 = None"
    using divide_out_zero [of 2 0] by (cases "divide_out 2 0") auto
  then show ?thesis
    by (subst kiss_fft_next_fast_size.simps) simp
qed

lemma fast_size_largest: "fast_size 2125764000"
  unfolding fast_size_def by (intro exI [of _ 5] exI [of _ 12] exI [of _ 3]) simp

text \<open>
  Claim C4, as stated for every integer \<open>n\<close>, fails for \<open>n \<le> 0\<close>: a negative \<open>n\<close> is
  returned as it is, since \<^verbatim>\<open>m<=1\<close> holds at once, and \<open>-7\<close> is not a product of twos,
  threes and fives.
\<close>

theorem kiss_fft_next_fast_size_negative:
  "kiss_fft_next_fast_size (-7) = Some (-7) \<and> \<not> fast_size (-7)"
proof
  show "kiss_fft_next_fast_size (-7) = Some (-7)"
    by code_simp
  show "\<not> fast_size (-7)"
    using fast_size_pos [of "-7"] by auto
qed

text \<open>
  Claim C4, amended.  For every \<open>n\<close> from 1 up to 2125764000, the largest \<^verbatim>\<open>int\<close> whose
  only prime factors are 2, 3 and 5, \<^verbatim>\<open>kiss_fft_next_fast_size\<close> returns the smallest
  \<open>m \<ge> n\<close> whose only prime factors are 2, 3 and 5.
\<close>

theorem kiss_fft_next_fast_size_smallest:
  assumes "1 \<le> n" "n \<le> 2125764000"
  shows "\<exists>m. kiss_fft_next_fast_size n = Some m \<and> n \<le> m \<and> fast_size m
           \<and> (\<forall>k. n \<le> k \<and> k < m \<longrightarrow> \<not> fast_size k)"
  using kiss_fft_next_fast_size_least [OF assms _ fast_size_largest]
  by (simp add: INT_MAX_def)

theorem kiss_fft_next_fast_size_smallest_witness:
  "(1::int) \<le> 7 \<and> (7::int) \<le> 2125764000 \<and> kiss_fft_next_fast_size 7 = Some 8
   \<and> (\<exists>m. kiss_fft_next_fast_size 7 = Some m \<and> 7 \<le> m \<and> fast_size m
           \<and> (\<forall>k. 7 \<le> k \<and> k < m \<longrightarrow> \<not> fast_size k))"
proof -
  have e: "kiss_fft_next_fast_size 7 = Some 8"
    by code_simp
  from kiss_fft_next_fast_size_smallest [of 7] e show ?thesis
    by simp
qed

section \<open>Reasoning about the loops\<close>

lemma for_loop_empty: "n \<le> i \<Longrightarrow> for_loop i n body s = Some s"
  by (subst for_loop.simps) simp

lemma for_loop_step: "i < n \<Longrightarrow> for_loop i n body s = Option.bind (body i s) (for_loop (i + 1) n body)"
  by (subst for_loop.simps) (simp cong: Option.bind_cong)

lemma for_loop_single: "for_loop i (i + 1) body s = body i s"
  by (simp add: for_loop_step for_loop_empty cong: Option.bind_cong)

text \<open>Two loops that run in step keep a relation between their states.\<close>

lemma do_while_rel_aux:
  assumes step: "\<And>j s t. j < n \<Longrightarrow> R j s t \<Longrightarrow> rel_option (R (Suc j)) (b1 s) (b2 t)"
    and cnd: "\<And>j s t. 0 < j \<Longrightarrow> j \<le> n \<Longrightarrow> R j s t \<Longrightarrow> c1 s = (j < n) \<and> c2 t = (j < n)"
  shows "j < n \<Longrightarrow> R j s t \<Longrightarrow> rel_option (R n) (do_while b1 c1 s) (do_while b2 c2 t)"
proof (induction "n - j" arbitrary: j s t rule: less_induct)
  case less
  from step [OF less.prems] have r: "rel_option (R (Suc j)) (b1 s) (b2 t)" .
  show ?case
  proof (cases "b1 s")
    case None
    with r have "b2 t = None" by (cases "b2 t") auto
    with None show ?thesis
      by (subst (1 2) do_while.simps) simp
  next
    case (Some s')
    with r obtain t' where t': "b2 t = Some t'" "R (Suc j) s' t'"
      by (cases "b2 t") auto
    from cnd [OF _ _ t'(2)] less.prems have c: "c1 s' = (Suc j < n)" "c2 t' = (Suc j < n)"
      by auto
    show ?thesis
    proof (cases "Suc j < n")
      case True
      then have "n - Suc j < n - j" by simp
      from less.hyps [OF this True t'(2)] Some t' c True show ?thesis
        by (subst (1 2) do_while.simps) simp
    next
      case False
      with less.prems have "Suc j = n" by simp
      with Some t' c False show ?thesis
        by (subst (1 2) do_while.simps) auto
    qed
  qed
qed

lemma do_while_rel:
  assumes "0 < n" "R 0 s t"
    and "\<And>j s t. j < n \<Longrightarrow> R j s t \<Longrightarrow> rel_option (R (Suc j)) (b1 s) (b2 t)"
    and "\<And>j s t. 0 < j \<Longrightarrow> j \<le> n \<Longrightarrow> R j s t \<Longrightarrow> c1 s = (j < n) \<and> c2 t = (j < n)"
  shows "rel_option (R n) (do_while b1 c1 s) (do_while b2 c2 t)"
  using do_while_rel_aux [of n R b1 b2 c1 c2 0 s t] assms by blast

lemma for_loop_rel:
  assumes "R lo s t"
    and step: "\<And>i s t. lo \<le> i \<Longrightarrow> i < hi \<Longrightarrow> R i s t \<Longrightarrow> rel_option (R (i + 1)) (b1 i s) (b2 i t)"
  shows "rel_option (R (max lo hi)) (for_loop lo hi b1 s) (for_loop lo hi b2 t)"
  using assms
proof (induction "nat (hi - lo)" arbitrary: lo s t rule: less_induct)
  case less
  show ?case
  proof (cases "lo < hi")
    case False
    with less.prems(1) show ?thesis
      by (simp add: for_loop_empty max_def)
  next
    case True
    from less.prems(2) [OF order_refl True less.prems(1)]
    have r: "rel_option (R (lo + 1)) (b1 lo s) (b2 lo t)" .
    show ?thesis
    proof (cases "b1 lo s")
      case None
      with r have "b2 lo t = None" by (cases "b2 lo t") auto
      with None True show ?thesis
        by (simp add: for_loop_step)
    next
      case (Some s')
      with r obtain t' where t': "b2 lo t = Some t'" "R (lo + 1) s' t'"
        by (cases "b2 lo t") auto
      have "nat (hi - (lo + 1)) < nat (hi - lo)"
        using True by simp
      from less.hyps [OF this t'(2)] less.prems(2)
      have "rel_option (R (max (lo + 1) hi)) (for_loop (lo + 1) hi b1 s') (for_loop (lo + 1) hi b2 t')"
        by simp
      moreover have "max (lo + 1) hi = max lo hi"
        using True by simp
      ultimately show ?thesis
        using Some t' True by (simp add: for_loop_step)
    qed
  qed
qed

text \<open>The one-sided forms: an invariant of a loop whose body does not fail.\<close>

lemma do_while_total_aux:
  assumes step: "\<And>j s. j < n \<Longrightarrow> P j s \<Longrightarrow> \<exists>s'. b s = Some s' \<and> P (Suc j) s'"
    and cnd: "\<And>j s. 0 < j \<Longrightarrow> j \<le> n \<Longrightarrow> P j s \<Longrightarrow> c s = (j < n)"
  shows "j < n \<Longrightarrow> P j s \<Longrightarrow> \<exists>s'. do_while b c s = Some s' \<and> P n s'"
proof (induction "n - j" arbitrary: j s rule: less_induct)
  case less
  from step [OF less.prems] obtain s' where s': "b s = Some s'" "P (Suc j) s'"
    by blast
  from cnd [OF _ _ s'(2)] less.prems have c: "c s' = (Suc j < n)"
    by auto
  show ?case
  proof (cases "Suc j < n")
    case True
    then have "n - Suc j < n - j" by simp
    from less.hyps [OF this True s'(2)] s' c True show ?thesis
      by (subst do_while.simps) simp
  next
    case False
    with less.prems have "Suc j = n" by simp
    with s' c False show ?thesis
      by (subst do_while.simps) auto
  qed
qed

lemma do_while_total:
  assumes "0 < n" "P 0 s"
    and "\<And>j s. j < n \<Longrightarrow> P j s \<Longrightarrow> \<exists>s'. b s = Some s' \<and> P (Suc j) s'"
    and "\<And>j s. 0 < j \<Longrightarrow> j \<le> n \<Longrightarrow> P j s \<Longrightarrow> c s = (j < n)"
  shows "\<exists>s'. do_while b c s = Some s' \<and> P n s'"
  using do_while_total_aux [of n P b c 0 s] assms by blast

lemma for_loop_total:
  assumes "P lo s"
    and step: "\<And>i s. lo \<le> i \<Longrightarrow> i < hi \<Longrightarrow> P i s \<Longrightarrow> \<exists>s'. b i s = Some s' \<and> P (i + 1) s'"
  shows "\<exists>s'. for_loop lo hi b s = Some s' \<and> P (max lo hi) s'"
  using assms
proof (induction "nat (hi - lo)" arbitrary: lo s rule: less_induct)
  case less
  show ?case
  proof (cases "lo < hi")
    case False
    with less.prems(1) show ?thesis
      by (simp add: for_loop_empty max_def)
  next
    case True
    from less.prems(2) [OF order_refl True less.prems(1)]
    obtain s' where s': "b lo s = Some s'" "P (lo + 1) s'"
      by blast
    have "nat (hi - (lo + 1)) < nat (hi - lo)"
      using True by simp
    from less.hyps [OF this s'(2)] less.prems(2)
    have "\<exists>s''. for_loop (lo + 1) hi b s' = Some s'' \<and> P (max (lo + 1) hi) s''"
      by simp
    moreover have "max (lo + 1) hi = max lo hi"
      using True by simp
    ultimately show ?thesis
      using s' True by (simp add: for_loop_step)
  qed
qed

text \<open>The one-sided partial form: what holds after a loop if it returns.\<close>

lemma do_while_partial:
  assumes "0 < n" "P 0 s"
    and step: "\<And>j s s'. j < n \<Longrightarrow> P j s \<Longrightarrow> b s = Some s' \<Longrightarrow> P (Suc j) s'"
    and cnd: "\<And>j s. 0 < j \<Longrightarrow> j \<le> n \<Longrightarrow> P j s \<Longrightarrow> c s = (j < n)"
    and "do_while b c s = Some s'"
  shows "P n s'"
proof -
  have "rel_option (\<lambda>s t. s = t \<and> P n s) (do_while b c s) (do_while b c s)"
  proof (rule do_while_rel [where R = "\<lambda>j s t. s = t \<and> P j s", OF assms(1)])
    show "s = s \<and> P 0 s" using assms(2) by simp
  next
    fix j s t assume "j < n" "s = t \<and> P j s"
    with step [of j s] show "rel_option (\<lambda>s t. s = t \<and> P (Suc j) s) (b s) (b t)"
      by (cases "b s") auto
  next
    fix j s t assume "0 < j" "j \<le> n" "s = t \<and> P j s"
    with cnd [of j s] show "c s = (j < n) \<and> c t = (j < n)" by auto
  qed
  with assms(5) show ?thesis by auto
qed

lemma for_loop_partial:
  assumes "P lo s"
    and step: "\<And>i s s'. lo \<le> i \<Longrightarrow> i < hi \<Longrightarrow> P i s \<Longrightarrow> b i s = Some s' \<Longrightarrow> P (i + 1) s'"
    and "for_loop lo hi b s = Some s'"
  shows "P (max lo hi) s'"
proof -
  have "rel_option (\<lambda>s t. s = t \<and> P (max lo hi) s) (for_loop lo hi b s) (for_loop lo hi b s)"
  proof (rule for_loop_rel [where R = "\<lambda>j s t. s = t \<and> P j s"])
    show "s = s \<and> P lo s" using assms(1) by simp
  next
    fix i s t assume "lo \<le> i" "i < hi" "s = t \<and> P i s"
    with step [of i s] show "rel_option (\<lambda>s t. s = t \<and> P (i + 1) s) (b i s) (b i t)"
      by (cases "b i s") auto
  qed
  with assms(3) show ?thesis by auto
qed

lemma for_loop_commute:
  assumes "I lo s"
    and "\<And>i s. lo \<le> i \<Longrightarrow> i < hi \<Longrightarrow> I i s \<Longrightarrow> b2 i (T s) = map_option T (b1 i s)"
    and "\<And>i s s'. lo \<le> i \<Longrightarrow> i < hi \<Longrightarrow> I i s \<Longrightarrow> b1 i s = Some s' \<Longrightarrow> I (i + 1) s'"
  shows "for_loop lo hi b2 (T s) = map_option T (for_loop lo hi b1 s)"
proof -
  have "rel_option (\<lambda>s t. t = T s \<and> I (max lo hi) s) (for_loop lo hi b1 s) (for_loop lo hi b2 (T s))"
  proof (rule for_loop_rel [where R = "\<lambda>i s t. t = T s \<and> I i s"])
    show "T s = T s \<and> I lo s" using assms(1) by simp
  next
    fix i s t assume a: "lo \<le> i" "i < hi" "t = T s \<and> I i s"
    then have "b2 i t = map_option T (b1 i s)"
      using assms(2) by simp
    then show "rel_option (\<lambda>s t. t = T s \<and> I (i + 1) s) (b1 i s) (b2 i t)"
      using assms(3) [OF a(1,2)] a(3) by (cases "b1 i s") auto
  qed
  then show ?thesis
    by (auto elim!: option.rel_cases)
qed

section \<open>Length one and failed allocations\<close>

lemma kf_factor_1: "kf_factor 1 = Some [1, 1]"
  by code_simp

lemma kf_bfly_generic_1:
  "\<exists>w'. kf_bfly_generic g Fout fstride st 1 1 w = Some w' \<and> mem w' = mem w"
proof -
  have l: "for_loop 0 1 body s = body 0 s" for body :: "int \<Rightarrow> 's \<Rightarrow> 's option" and s
    using for_loop_single [of 0 body s] by simp
  have e: "for_loop 1 1 body s = Some s" for body :: "int \<Rightarrow> 's \<Rightarrow> 's option" and s
    by (rule for_loop_empty) simp
  show ?thesis
    by (simp add: kf_bfly_generic_def KISS_FFT_ERROR_def l e kf_bfly_generic_body_def
        kf_bfly_generic_load_def kf_bfly_generic_out_def C_FIXDIV_def store_def Let_def)
qed

lemma kf_work_1:
  "\<exists>w'. kf_work g Fout f fstride in_stride [1, 1] st w = Some w' \<and> mem w' = (mem w)(Fout := mem w f)"
proof -
  have "do_while (\<lambda>(Fout, f, w). Some (Fout + 1, f + fstride * in_stride, store Fout (mem w f) w))
          (\<lambda>(Fout', f, w). Fout' \<noteq> Fout + 1) (Fout, f, w)
        = Some (Fout + 1, f + fstride * in_stride, store Fout (mem w f) w)"
    by (subst do_while.simps) simp
  moreover from kf_bfly_generic_1 [of g Fout fstride st "store Fout (mem w f) w"]
  obtain w' where "kf_bfly_generic g Fout fstride st 1 1 (store Fout (mem w f) w) = Some w'"
    "mem w' = mem (store Fout (mem w f) w)"
    by blast
  ultimately show ?thesis
    by (simp add: kf_bfly_def store_def)
qed

text \<open>
  Claim C8.  For \<open>N = 1\<close>, in either direction, the factorizer emits the single pair
  radix 1, remaining length 1, and the transform of one sample writes the input sample to
  the output unchanged; this holds for every input and output pointer, aliased or not, and
  whatever the temporary allocations return.
\<close>

theorem kiss_fft_length_one_pass_through:
  "kf_factor 1 = Some [1, 1]
   \<and> (\<exists>st. kiss_fft_alloc g 1 dir True = Some (Some st) \<and> nfft st = 1 \<and> factors st = [1, 1]
        \<and> (\<exists>w'. kiss_fft_stride g st fin fout in_stride w = Some w'
              \<and> mem w' fout = mem w fin))"
proof -
  define st where "st = \<lparr>nfft = 1, inverse_fft = dir, factors = [1, 1],
                twiddles = (\<lambda>i.
                  let phase = - 2 * pi * real_of_int i / real_of_int 1;
                      phase = (if dir \<noteq> 0 then phase * (- 1) else phase)
                  in kf_cexp g phase)\<rparr>"
  have a: "kiss_fft_alloc g 1 dir True = Some (Some st)"
    by (simp add: kiss_fft_alloc_def kf_factor_1 st_def)
  have f: "factors st = [1, 1]" "nfft st = 1"
    by (simp_all add: st_def)
  have "\<exists>w'. kiss_fft_stride g st fin fout in_stride w = Some w' \<and> mem w' fout = mem w fin"
  proof (cases "fin = fout")
    case False
    with kf_work_1 [of g fout fin 1 in_stride st w] f show ?thesis
      by (auto simp: kiss_fft_stride_def)
  next
    case True
    show ?thesis
    proof (cases "fout = 0 \<or> KISS_FFT_TMP_ALLOC g (tmp_allocs w) 1 = 0")
      case True
      with \<open>fin = fout\<close> f show ?thesis
        by (auto simp: kiss_fft_stride_def KISS_FFT_ERROR_def Let_def)
    next
      case False
      define t where "t = KISS_FFT_TMP_ALLOC g (tmp_allocs w) 1"
      define w1 where "w1 = w\<lparr>tmp_allocs := Suc (tmp_allocs w)\<rparr>"
      from kf_work_1 [of g t fin 1 in_stride st w1]
      obtain w' where "kf_work g t fin 1 in_stride [1, 1] st w1 = Some w'"
        "mem w' = (mem w1)(t := mem w1 fin)"
        by blast
      with False \<open>fin = fout\<close> f show ?thesis
        by (simp add: kiss_fft_stride_def Let_def memcpy_cpx_def t_def [symmetric] w1_def [symmetric])
          (simp add: w1_def)
    qed
  qed
  with a f kf_factor_1 show ?thesis by blast
qed

text \<open>
  Claim C9.  When the output is aliased to the input and the buffer is \<^verbatim>\<open>NULL\<close> or the
  allocation of the temporary buffer fails, \<^verbatim>\<open>kiss_fft_stride\<close> returns after recording
  one error message, and the memory of samples is exactly what it was before the call.
\<close>

theorem kiss_fft_stride_failure_leaves_memory:
  assumes "fin = fout" "fout = 0 \<or> KISS_FFT_TMP_ALLOC g (tmp_allocs w) (nfft st) = 0"
  shows "\<exists>w' msg. kiss_fft_stride g st fin fout in_stride w = Some w' \<and> mem w' = mem w
           \<and> errlog w' = errlog w @ [msg]"
  using assms by (auto simp: kiss_fft_stride_def KISS_FFT_ERROR_def Let_def)

theorem kiss_fft_stride_failure_leaves_memory_witness:
  "(10::int) = 10
   \<and> ((10::int) = 0 \<or> KISS_FFT_TMP_ALLOC (int_guts (\<lambda>c n. 0)) (tmp_allocs ramp_world) (nfft plan4) = 0)
   \<and> (\<exists>w' msg. kiss_fft_stride (int_guts (\<lambda>c n. 0)) plan4 10 10 1 ramp_world = Some w'
         \<and> mem w' = mem ramp_world \<and> errlog w' = errlog ramp_world @ [msg])"
proof -
  have a: "KISS_FFT_TMP_ALLOC (int_guts (\<lambda>c n. 0)) (tmp_allocs ramp_world) (nfft plan4) = 0"
    by (simp add: int_guts_def)
  from kiss_fft_stride_failure_leaves_memory [of 10 10 "int_guts (\<lambda>c n. 0)" ramp_world plan4 1] a
  show ?thesis by simp
qed

section \<open>The butterflies work on their block only\<close>

lemma mem_graft_in: "F \<le> a \<Longrightarrow> a < F + n \<Longrightarrow> mem (graft F n d w2 w) a = mem w (a - d)"
  by (simp add: graft_def)

lemma store_graft_in:
  "F \<le> a \<Longrightarrow> a < F + n \<Longrightarrow> store a v (graft F n d w2 w) = graft F n d w2 (store (a - d) v w)"
  by (auto simp: graft_def store_def fun_eq_iff)

lemma store_r_graft_in:
  "F \<le> a \<Longrightarrow> a < F + n \<Longrightarrow> store_r a v (graft F n d w2 w) = graft F n d w2 (store_r (a - d) v w)"
  by (simp add: store_r_def store_graft_in mem_graft_in)

lemma store_i_graft_in:
  "F \<le> a \<Longrightarrow> a < F + n \<Longrightarrow> store_i a v (graft F n d w2 w) = graft F n d w2 (store_i (a - d) v w)"
  by (simp add: store_i_def store_graft_in mem_graft_in)

lemmas graft_in = mem_graft_in store_graft_in store_r_graft_in store_i_graft_in

lemma store_C_FIXDIV [simp]: "store a (C_FIXDIV (mem w a) c) w = w"
  by (simp add: store_def C_FIXDIV_def)

lemma rel_option_map: "(\<And>x'. x = Some x' \<Longrightarrow> R x' (f x')) \<Longrightarrow> rel_option R x (map_option f x)"
  by (cases x) auto

lemma rel_option_eq_map: "rel_option (\<lambda>s t. \<exists>a b. s = (a, b) \<and> f t = T b) x y \<Longrightarrow>
   map_option f y = map_option (\<lambda>s. T (snd s)) x"
  by (cases x; cases y) auto

subsection \<open>kf_bfly2\<close>

lemma kf_bfly2_body_shape:
  "kf_bfly2_body g fstride st (Fout, Fout2, tw1, k, w) = Some s \<Longrightarrow>
     \<exists>w'. s = (Fout + 1, Fout2 + 1, tw1 + fstride, k - 1, w')"
  by (auto simp: kf_bfly2_body_def Let_def split: bind_splits)

lemma kf_bfly2_body_graft:
  assumes "F \<le> Fout + d" "Fout + d < F + n" "F \<le> Fout2 + d" "Fout2 + d < F + n"
  shows "kf_bfly2_body g fstride st (Fout + d, Fout2 + d, tw1, k, graft F n d w2 w) =
    map_option (\<lambda>(Fout', Fout2', tw1, k, w'). (Fout' + d, Fout2' + d, tw1, k, graft F n d w2 w'))
      (kf_bfly2_body g fstride st (Fout, Fout2, tw1, k, w))"
  using assms
  by (simp add: kf_bfly2_body_def Let_def graft_in split: bind_splits option.splits)

lemma kf_bfly2_graft:
  assumes "F \<le> Fout + d" "Fout + d + 2 * m \<le> F + n" "0 < m"
  shows "kf_bfly2 g (Fout + d) fstride st m (graft F n d w2 w) =
    map_option (graft F n d w2) (kf_bfly2 g Fout fstride st m w)"
proof -
  define R where "R j s t \<longleftrightarrow> (\<exists>tw1 w'.
      s = (Fout + int j, Fout + m + int j, tw1, m - int j, w') \<and>
      t = (Fout + int j + d, Fout + m + int j + d, tw1, m - int j, graft F n d w2 w'))"
    for j and s t :: "int \<times> int \<times> int \<times> int \<times> 'a world"
  have "rel_option (R (nat m))
     (do_while (kf_bfly2_body g fstride st) (\<lambda>(Fout, Fout2, tw1, m, w). m \<noteq> 0) (Fout, Fout + m, 0, m, w))
     (do_while (kf_bfly2_body g fstride st) (\<lambda>(Fout, Fout2, tw1, m, w). m \<noteq> 0)
        (Fout + d, Fout + d + m, 0, m, graft F n d w2 w))"
  proof (rule do_while_rel)
    show "0 < nat m" using assms(3) by simp
    show "R 0 (Fout, Fout + m, 0, m, w) (Fout + d, Fout + d + m, 0, m, graft F n d w2 w)"
      by (simp add: R_def)
  next
    fix j s t assume j: "j < nat m" and "R j s t"
    then obtain tw1 w' where s: "s = (Fout + int j, Fout + m + int j, tw1, m - int j, w')"
      and t: "t = (Fout + int j + d, Fout + m + int j + d, tw1, m - int j, graft F n d w2 w')"
      unfolding R_def by blast
    have jm: "int j < m" using j by simp
    have t': "kf_bfly2_body g fstride st t =
      map_option (\<lambda>(Fout', Fout2', tw1, k, w'). (Fout' + d, Fout2' + d, tw1, k, graft F n d w2 w'))
        (kf_bfly2_body g fstride st s)"
      unfolding s t using assms jm by (intro kf_bfly2_body_graft) auto
    show "rel_option (R (Suc j)) (kf_bfly2_body g fstride st s) (kf_bfly2_body g fstride st t)"
      unfolding t'
    proof (rule rel_option_map)
      fix x' assume "kf_bfly2_body g fstride st s = Some x'"
      from kf_bfly2_body_shape [OF this [unfolded s]] show
        "R (Suc j) x' ((\<lambda>(Fout', Fout2', tw1, k, w'). (Fout' + d, Fout2' + d, tw1, k, graft F n d w2 w')) x')"
        by (auto simp: R_def algebra_simps)
    qed
  next
    fix j s t assume "0 < j" "j \<le> nat m" "R j s t"
    then show "(case s of (Fout, Fout2, tw1, m, w) \<Rightarrow> m \<noteq> 0) = (j < nat m)
         \<and> (case t of (Fout, Fout2, tw1, m, w) \<Rightarrow> m \<noteq> 0) = (j < nat m)"
      by (auto simp: R_def)
  qed
  then show ?thesis
    by (auto simp: kf_bfly2_def R_def elim!: option.rel_cases)
qed

subsection \<open>kf_bfly4\<close>

lemma kf_bfly4_body_shape:
  "kf_bfly4_body g fstride st m (Fout, tw1, tw2, tw3, k, w) = Some s \<Longrightarrow>
     \<exists>w'. s = (Fout + 1, tw1 + fstride, tw2 + fstride * 2, tw3 + fstride * 3, k - 1, w')"
  by (auto simp: kf_bfly4_body_def Let_def split: bind_splits)

lemma kf_bfly4_body_graft:
  assumes "F \<le> Fout + d" "Fout + d + 3 * m < F + n" "0 < m"
  shows "kf_bfly4_body g fstride st m (Fout + d, tw1, tw2, tw3, k, graft F n d w2 w) =
    map_option (\<lambda>(Fout', tw1, tw2, tw3, k, w'). (Fout' + d, tw1, tw2, tw3, k, graft F n d w2 w'))
      (kf_bfly4_body g fstride st m (Fout, tw1, tw2, tw3, k, w))"
  using assms
  by (simp add: kf_bfly4_body_def Let_def graft_in split: bind_splits option.splits)

lemma kf_bfly4_graft:
  assumes "F \<le> Fout + d" "Fout + d + 4 * m \<le> F + n" "0 < m"
  shows "kf_bfly4 g (Fout + d) fstride st m (graft F n d w2 w) =
    map_option (graft F n d w2) (kf_bfly4 g Fout fstride st m w)"
proof -
  define R where "R j s t \<longleftrightarrow> (\<exists>tw1 tw2 tw3 w'.
      s = (Fout + int j, tw1, tw2, tw3, m - int j, w') \<and>
      t = (Fout + int j + d, tw1, tw2, tw3, m - int j, graft F n d w2 w'))"
    for j and s t :: "int \<times> int \<times> int \<times> int \<times> int \<times> 'a world"
  have "rel_option (R (nat m))
     (do_while (kf_bfly4_body g fstride st m) (\<lambda>(Fout, tw1, tw2, tw3, k, w). k \<noteq> 0)
        (Fout, 0, 0, 0, m, w))
     (do_while (kf_bfly4_body g fstride st m) (\<lambda>(Fout, tw1, tw2, tw3, k, w). k \<noteq> 0)
        (Fout + d, 0, 0, 0, m, graft F n d w2 w))"
  proof (rule do_while_rel)
    show "0 < nat m" using assms(3) by simp
    show "R 0 (Fout, 0, 0, 0, m, w) (Fout + d, 0, 0, 0, m, graft F n d w2 w)"
      by (simp add: R_def)
  next
    fix j s t assume j: "j < nat m" and "R j s t"
    then obtain tw1 tw2 tw3 w' where s: "s = (Fout + int j, tw1, tw2, tw3, m - int j, w')"
      and t: "t = (Fout + int j + d, tw1, tw2, tw3, m - int j, graft F n d w2 w')"
      unfolding R_def by blast
    have jm: "int j < m" using j by simp
    have t': "kf_bfly4_body g fstride st m t =
      map_option (\<lambda>(Fout', tw1, tw2, tw3, k, w'). (Fout' + d, tw1, tw2, tw3, k, graft F n d w2 w'))
        (kf_bfly4_body g fstride st m s)"
      unfolding s t using assms jm by (intro kf_bfly4_body_graft) auto
    show "rel_option (R (Suc j)) (kf_bfly4_body g fstride st m s) (kf_bfly4_body g fstride st m t)"
      unfolding t'
    proof (rule rel_option_map)
      fix x' assume "kf_bfly4_body g fstride st m s = Some x'"
      from kf_bfly4_body_shape [OF this [unfolded s]] show
        "R (Suc j) x' ((\<lambda>(Fout', tw1, tw2, tw3, k, w'). (Fout' + d, tw1, tw2, tw3, k, graft F n d w2 w')) x')"
        by (auto simp: R_def algebra_simps)
    qed
  next
    fix j s t assume "0 < j" "j \<le> nat m" "R j s t"
    then show "(case s of (Fout, tw1, tw2, tw3, k, w) \<Rightarrow> k \<noteq> 0) = (j < nat m)
         \<and> (case t of (Fout, tw1, tw2, tw3, k, w) \<Rightarrow> k \<noteq> 0) = (j < nat m)"
      by (auto simp: R_def)
  qed
  then show ?thesis
    by (auto simp: kf_bfly4_def R_def elim!: option.rel_cases)
qed

subsection \<open>kf_bfly3\<close>

lemma kf_bfly3_body_shape:
  "kf_bfly3_body g fstride st m epi3 (Fout, tw1, tw2, k, w) = Some s \<Longrightarrow>
     \<exists>w'. s = (Fout + 1, tw1 + fstride, tw2 + fstride * 2, k - 1, w')"
  by (auto simp: kf_bfly3_body_def Let_def split: bind_splits)

lemma kf_bfly3_body_graft:
  assumes "F \<le> Fout + d" "Fout + d + 2 * m < F + n" "0 < m"
  shows "kf_bfly3_body g fstride st m epi3 (Fout + d, tw1, tw2, k, graft F n d w2 w) =
    map_option (\<lambda>(Fout', tw1, tw2, k, w'). (Fout' + d, tw1, tw2, k, graft F n d w2 w'))
      (kf_bfly3_body g fstride st m epi3 (Fout, tw1, tw2, k, w))"
  using assms
  by (simp add: kf_bfly3_body_def Let_def graft_in split: bind_splits option.splits)

lemma kf_bfly3_graft:
  assumes "F \<le> Fout + d" "Fout + d + 3 * m \<le> F + n" "0 < m"
  shows "kf_bfly3 g (Fout + d) fstride st m (graft F n d w2 w) =
    map_option (graft F n d w2) (kf_bfly3 g Fout fstride st m w)"
proof (cases "twiddle st (fstride * m)")
  case None
  then show ?thesis by (simp add: kf_bfly3_def)
next
  case (Some epi3)
  define R where "R j s t \<longleftrightarrow> (\<exists>tw1 tw2 w'.
      s = (Fout + int j, tw1, tw2, m - int j, w') \<and>
      t = (Fout + int j + d, tw1, tw2, m - int j, graft F n d w2 w'))"
    for j and s t :: "int \<times> int \<times> int \<times> int \<times> 'a world"
  have "rel_option (R (nat m))
     (do_while (kf_bfly3_body g fstride st m epi3) (\<lambda>(Fout, tw1, tw2, k, w). k \<noteq> 0)
        (Fout, 0, 0, m, w))
     (do_while (kf_bfly3_body g fstride st m epi3) (\<lambda>(Fout, tw1, tw2, k, w). k \<noteq> 0)
        (Fout + d, 0, 0, m, graft F n d w2 w))"
  proof (rule do_while_rel)
    show "0 < nat m" using assms(3) by simp
    show "R 0 (Fout, 0, 0, m, w) (Fout + d, 0, 0, m, graft F n d w2 w)"
      by (simp add: R_def)
  next
    fix j s t assume j: "j < nat m" and "R j s t"
    then obtain tw1 tw2 w' where s: "s = (Fout + int j, tw1, tw2, m - int j, w')"
      and t: "t = (Fout + int j + d, tw1, tw2, m - int j, graft F n d w2 w')"
      unfolding R_def by blast
    have jm: "int j < m" using j by simp
    have t': "kf_bfly3_body g fstride st m epi3 t =
      map_option (\<lambda>(Fout', tw1, tw2, k, w'). (Fout' + d, tw1, tw2, k, graft F n d w2 w'))
        (kf_bfly3_body g fstride st m epi3 s)"
      unfolding s t using assms jm by (intro kf_bfly3_body_graft) auto
    show "rel_option (R (Suc j)) (kf_bfly3_body g fstride st m epi3 s)
        (kf_bfly3_body g fstride st m epi3 t)"
      unfolding t'
    proof (rule rel_option_map)
      fix x' assume "kf_bfly3_body g fstride st m epi3 s = Some x'"
      from kf_bfly3_body_shape [OF this [unfolded s]] show
        "R (Suc j) x' ((\<lambda>(Fout', tw1, tw2, k, w'). (Fout' + d, tw1, tw2, k, graft F n d w2 w')) x')"
        by (auto simp: R_def algebra_simps)
    qed
  next
    fix j s t assume "0 < j" "j \<le> nat m" "R j s t"
    then show "(case s of (Fout, tw1, tw2, k, w) \<Rightarrow> k \<noteq> 0) = (j < nat m)
         \<and> (case t of (Fout, tw1, tw2, k, w) \<Rightarrow> k \<noteq> 0) = (j < nat m)"
      by (auto simp: R_def)
  qed
  then show ?thesis
    using Some by (auto simp: kf_bfly3_def R_def elim!: option.rel_cases)
qed

subsection \<open>kf_bfly5\<close>

lemma kf_bfly5_body_shape:
  "kf_bfly5_body g fstride st ya yb u (Fout0, Fout1, Fout2, Fout3, Fout4, w) = Some s \<Longrightarrow>
     \<exists>w'. s = (Fout0 + 1, Fout1 + 1, Fout2 + 1, Fout3 + 1, Fout4 + 1, w')"
  by (auto simp: kf_bfly5_body_def Let_def split: bind_splits)

lemma kf_bfly5_body_graft:
  assumes "F \<le> Fout0 + d" "Fout0 + d < F + n" "F \<le> Fout1 + d" "Fout1 + d < F + n"
    "F \<le> Fout2 + d" "Fout2 + d < F + n" "F \<le> Fout3 + d" "Fout3 + d < F + n"
    "F \<le> Fout4 + d" "Fout4 + d < F + n"
  shows "kf_bfly5_body g fstride st ya yb u
      (Fout0 + d, Fout1 + d, Fout2 + d, Fout3 + d, Fout4 + d, graft F n d w2 w) =
    map_option (\<lambda>(Fout0, Fout1, Fout2, Fout3, Fout4, w').
        (Fout0 + d, Fout1 + d, Fout2 + d, Fout3 + d, Fout4 + d, graft F n d w2 w'))
      (kf_bfly5_body g fstride st ya yb u (Fout0, Fout1, Fout2, Fout3, Fout4, w))"
  using assms
  by (simp add: kf_bfly5_body_def Let_def graft_in split: bind_splits option.splits)

lemma kf_bfly5_graft:
  assumes "F \<le> Fout + d" "Fout + d + 5 * m \<le> F + n" "0 < m"
  shows "kf_bfly5 g (Fout + d) fstride st m (graft F n d w2 w) =
    map_option (graft F n d w2) (kf_bfly5 g Fout fstride st m w)"
proof (cases "twiddle st (fstride * m)")
  case None
  then show ?thesis by (simp add: kf_bfly5_def)
next
  case ya: (Some ya)
  show ?thesis
  proof (cases "twiddle st (fstride * 2 * m)")
    case None
    then show ?thesis using ya by (simp add: kf_bfly5_def)
  next
    case yb: (Some yb)
    define R where "R j s t \<longleftrightarrow> (\<exists>w'.
        s = (Fout + j, Fout + m + j, Fout + 2 * m + j, Fout + 3 * m + j, Fout + 4 * m + j, w') \<and>
        t = (Fout + j + d, Fout + m + j + d, Fout + 2 * m + j + d, Fout + 3 * m + j + d,
             Fout + 4 * m + j + d, graft F n d w2 w'))"
      for j :: int and s t :: "int \<times> int \<times> int \<times> int \<times> int \<times> 'a world"
    have "rel_option (R (max 0 m))
       (for_loop 0 m (kf_bfly5_body g fstride st ya yb)
          (Fout, Fout + m, Fout + 2 * m, Fout + 3 * m, Fout + 4 * m, w))
       (for_loop 0 m (kf_bfly5_body g fstride st ya yb)
          (Fout + d, Fout + d + m, Fout + d + 2 * m, Fout + d + 3 * m, Fout + d + 4 * m,
           graft F n d w2 w))"
    proof (rule for_loop_rel)
      show "R 0 (Fout, Fout + m, Fout + 2 * m, Fout + 3 * m, Fout + 4 * m, w)
          (Fout + d, Fout + d + m, Fout + d + 2 * m, Fout + d + 3 * m, Fout + d + 4 * m,
           graft F n d w2 w)"
        by (simp add: R_def algebra_simps)
    next
      fix j s t assume j: "0 \<le> j" "j < m" and "R j s t"
      then obtain w' where
        s: "s = (Fout + j, Fout + m + j, Fout + 2 * m + j, Fout + 3 * m + j, Fout + 4 * m + j, w')"
        and t: "t = (Fout + j + d, Fout + m + j + d, Fout + 2 * m + j + d, Fout + 3 * m + j + d,
             Fout + 4 * m + j + d, graft F n d w2 w')"
        unfolding R_def by blast
      have t': "kf_bfly5_body g fstride st ya yb j t =
        map_option (\<lambda>(Fout0, Fout1, Fout2, Fout3, Fout4, w').
            (Fout0 + d, Fout1 + d, Fout2 + d, Fout3 + d, Fout4 + d, graft F n d w2 w'))
          (kf_bfly5_body g fstride st ya yb j s)"
        unfolding s t using assms j by (intro kf_bfly5_body_graft) auto
      show "rel_option (R (j + 1)) (kf_bfly5_body g fstride st ya yb j s)
          (kf_bfly5_body g fstride st ya yb j t)"
        unfolding t'
      proof (rule rel_option_map)
        fix x' assume "kf_bfly5_body g fstride st ya yb j s = Some x'"
        from kf_bfly5_body_shape [OF this [unfolded s]] show
          "R (j + 1) x' ((\<lambda>(Fout0, Fout1, Fout2, Fout3, Fout4, w').
            (Fout0 + d, Fout1 + d, Fout2 + d, Fout3 + d, Fout4 + d, graft F n d w2 w')) x')"
          by (auto simp: R_def algebra_simps)
      qed
    qed
    then show ?thesis
      using ya yb by (auto simp: kf_bfly5_def R_def elim!: option.rel_cases)
  qed
qed

subsection \<open>kf_bfly_generic\<close>

lemma index_bound:
  fixes u m q p :: int
  assumes "0 \<le> u" "u < m" "0 \<le> q" "q < p"
  shows "0 \<le> u + q * m" "u + q * m < p * m"
proof -
  have m0: "0 \<le> m" using assms by simp
  then have "0 \<le> q * m" using assms(3) by simp
  then show "0 \<le> u + q * m" using assms(1) by simp
  have "(q + 1) * m \<le> p * m"
    using assms(4) m0 by (intro mult_right_mono) auto
  then show "u + q * m < p * m"
    using assms(2) by (simp add: algebra_simps)
qed

lemma kf_bfly_generic_load_graft:
  assumes "F \<le> Fout + d + k" "Fout + d + k < F + n"
  shows "kf_bfly_generic_load (Fout + d) m p (graft F n d w2 w) q1 (k, scratch) =
    kf_bfly_generic_load Fout m p w q1 (k, scratch)"
  using assms by (simp add: kf_bfly_generic_load_def graft_in)

lemma kf_bfly_generic_acc_graft:
  assumes "F \<le> Fout + d + k" "Fout + d + k < F + n"
  shows "kf_bfly_generic_acc g (Fout + d) fstride st Norig scratch k q (twidx, graft F n d w2 w) =
    map_option (\<lambda>(twidx, w'). (twidx, graft F n d w2 w'))
      (kf_bfly_generic_acc g Fout fstride st Norig scratch k q (twidx, w))"
  using assms
  by (simp add: kf_bfly_generic_acc_def Let_def graft_in split: bind_splits option.splits)

lemma kf_bfly_generic_out_graft:
  assumes "F \<le> Fout + d + k" "Fout + d + k < F + n"
  shows "kf_bfly_generic_out g (Fout + d) fstride st Norig m p scratch q1 (k, graft F n d w2 w) =
    map_option (\<lambda>(k, w'). (k, graft F n d w2 w'))
      (kf_bfly_generic_out g Fout fstride st Norig m p scratch q1 (k, w))"
proof (cases "scratch 0")
  case None
  then show ?thesis by (simp add: kf_bfly_generic_out_def)
next
  case (Some c)
  have "for_loop 1 p (kf_bfly_generic_acc g (Fout + d) fstride st Norig scratch k)
          ((\<lambda>(twidx, w'). (twidx, graft F n d w2 w')) (0, store (Fout + k) c w)) =
        map_option (\<lambda>(twidx, w'). (twidx, graft F n d w2 w'))
          (for_loop 1 p (kf_bfly_generic_acc g Fout fstride st Norig scratch k)
             (0, store (Fout + k) c w))"
    by (rule for_loop_commute [where I = "\<lambda>_ _. True"])
      (auto simp: kf_bfly_generic_acc_graft [OF assms])
  with Some assms show ?thesis
    by (simp add: kf_bfly_generic_out_def graft_in option.map_comp comp_def case_prod_beta
        Option.bind_map_option map_option_bind cong: Option.bind_cong)
qed

lemma kf_bfly_generic_load_shape:
  "kf_bfly_generic_load Fout m p w q1 (k, scratch) = Some s \<Longrightarrow> fst s = k + m"
  by (auto simp: kf_bfly_generic_load_def Let_def split: bind_splits)

lemma kf_bfly_generic_out_shape:
  "kf_bfly_generic_out g Fout fstride st Norig m p scratch q1 (k, w) = Some s \<Longrightarrow> fst s = k + m"
  by (auto simp: kf_bfly_generic_out_def Let_def split: bind_splits)

lemma kf_bfly_generic_body_graft:
  assumes "F \<le> Fout + d" "Fout + d + p * m \<le> F + n" "0 \<le> u" "u < m"
  shows "kf_bfly_generic_body g (Fout + d) fstride st Norig m p u (graft F n d w2 w) =
    map_option (graft F n d w2) (kf_bfly_generic_body g Fout fstride st Norig m p u w)"
proof -
  have in_block: "F \<le> Fout + d + k \<and> Fout + d + k < F + n"
    if "0 \<le> q" "q < p" "k = u + q * m" for q k
    using index_bound [OF assms(3,4) that(1,2)] assms(1,2) that(3) by simp
  have load: "for_loop 0 p (kf_bfly_generic_load (Fout + d) m p (graft F n d w2 w)) (id (u, Map.empty)) =
      map_option id (for_loop 0 p (kf_bfly_generic_load Fout m p w) (u, Map.empty))"
  proof (rule for_loop_commute [where I = "\<lambda>q s. fst s = u + q * m"])
    show "fst (u, Map.empty) = u + 0 * m" by simp
  next
    fix q and s :: "int \<times> (int \<Rightarrow> 'a kiss_fft_cpx option)"
    assume q: "0 \<le> q" "q < p" "fst s = u + q * m"
    obtain k sc where s: "s = (k, sc)" by (cases s)
    with q have "F \<le> Fout + d + k \<and> Fout + d + k < F + n"
      using in_block [OF q(1,2), of k] by simp
    then show "kf_bfly_generic_load (Fout + d) m p (graft F n d w2 w) q (id s) =
        map_option id (kf_bfly_generic_load Fout m p w q s)"
      unfolding s by (simp add: option.map_id0 kf_bfly_generic_load_graft)
  next
    fix q and s s' :: "int \<times> (int \<Rightarrow> 'a kiss_fft_cpx option)"
    assume "fst s = u + q * m" "kf_bfly_generic_load Fout m p w q s = Some s'"
    then show "fst s' = u + (q + 1) * m"
      using kf_bfly_generic_load_shape [of Fout m p w q "fst s" "snd s" s']
      by (cases s) (simp add: algebra_simps)
  qed
  have out: "for_loop 0 p (kf_bfly_generic_out g (Fout + d) fstride st Norig m p scratch)
        ((\<lambda>(k, w'). (k, graft F n d w2 w')) (u, w)) =
      map_option (\<lambda>(k, w'). (k, graft F n d w2 w'))
        (for_loop 0 p (kf_bfly_generic_out g Fout fstride st Norig m p scratch) (u, w))"
    for scratch
  proof (rule for_loop_commute [where I = "\<lambda>q s. fst s = u + q * m"])
    show "fst (u, w) = u + 0 * m" by simp
  next
    fix q and s :: "int \<times> 'a world"
    assume q: "0 \<le> q" "q < p" "fst s = u + q * m"
    obtain k w' where s: "s = (k, w')" by (cases s)
    with q have "F \<le> Fout + d + k \<and> Fout + d + k < F + n"
      using in_block [OF q(1,2), of k] by simp
    then show "kf_bfly_generic_out g (Fout + d) fstride st Norig m p scratch q
          ((\<lambda>(k, w'). (k, graft F n d w2 w')) s) =
        map_option (\<lambda>(k, w'). (k, graft F n d w2 w'))
          (kf_bfly_generic_out g Fout fstride st Norig m p scratch q s)"
      unfolding s by (simp add: kf_bfly_generic_out_graft)
  next
    fix q and s s' :: "int \<times> 'a world"
    assume "fst s = u + q * m" "kf_bfly_generic_out g Fout fstride st Norig m p scratch q s = Some s'"
    then show "fst s' = u + (q + 1) * m"
      using kf_bfly_generic_out_shape [of g Fout fstride st Norig m p scratch q "fst s" "snd s" s']
      by (cases s) (simp add: algebra_simps)
  qed
  show ?thesis
    using load out
    by (simp add: kf_bfly_generic_body_def option.map_id0 case_prod_beta Option.bind_map_option
        map_option_bind option.map_comp comp_def cong: Option.bind_cong)
qed

lemma kf_bfly_generic_graft:
  assumes "F \<le> Fout + d" "Fout + d + p * m \<le> F + n"
    "KISS_FFT_TMP_ALLOC g (tmp_allocs w) p \<noteq> 0" "KISS_FFT_TMP_ALLOC g (tmp_allocs w2) p \<noteq> 0"
  shows "kf_bfly_generic g (Fout + d) fstride st m p (graft F n d w2 w) =
    map_option (graft F n d (w2\<lparr>tmp_allocs := Suc (tmp_allocs w2)\<rparr>))
      (kf_bfly_generic g Fout fstride st m p w)"
proof -
  let ?w2 = "w2\<lparr>tmp_allocs := Suc (tmp_allocs w2)\<rparr>"
  let ?w = "w\<lparr>tmp_allocs := Suc (tmp_allocs w)\<rparr>"
  have ta: "tmp_allocs (graft F n d w2 w) = tmp_allocs w2"
    by (simp add: graft_def)
  have e: "(graft F n d w2 w)\<lparr>tmp_allocs := Suc (tmp_allocs w2)\<rparr> = graft F n d ?w2 ?w"
    by (rule world.equality) (simp_all add: graft_def cong: if_cong)
  have l: "for_loop 0 m (kf_bfly_generic_body g (Fout + d) fstride st (nfft st) m p) (graft F n d ?w2 ?w) =
      map_option (graft F n d ?w2) (for_loop 0 m (kf_bfly_generic_body g Fout fstride st (nfft st) m p) ?w)"
    by (rule for_loop_commute [where I = "\<lambda>_ _. True"])
      (auto simp: kf_bfly_generic_body_graft [OF assms(1,2)])
  show ?thesis
    unfolding kf_bfly_generic_def Let_def ta e l using assms(3,4) by simp
qed

subsection \<open>The dispatch \<open>kf_bfly\<close>\<close>

lemma kf_bfly_graft:
  assumes "F \<le> Fout + d" "Fout + d + p * m \<le> F + n" "0 < m" "0 < p"
    "\<forall>c k. KISS_FFT_TMP_ALLOC g c k \<noteq> 0"
  shows "\<exists>w2'. mem w2' = mem w2 \<and>
    kf_bfly g (Fout + d) fstride st m p (graft F n d w2 w) =
      map_option (graft F n d w2') (kf_bfly g Fout fstride st m p w)"
proof -
  consider "p = 2" | "p = 3" | "p = 4" | "p = 5" | "p \<noteq> 2 \<and> p \<noteq> 3 \<and> p \<noteq> 4 \<and> p \<noteq> 5"
    by blast
  then show ?thesis
  proof cases
    case 1
    with assms kf_bfly2_graft [of F Fout d m n g fstride st w2 w] show ?thesis
      by (intro exI [of _ w2]) (simp add: kf_bfly_def)
  next
    case 2
    with assms kf_bfly3_graft [of F Fout d m n g fstride st w2 w] show ?thesis
      by (intro exI [of _ w2]) (simp add: kf_bfly_def)
  next
    case 3
    with assms kf_bfly4_graft [of F Fout d m n g fstride st w2 w] show ?thesis
      by (intro exI [of _ w2]) (simp add: kf_bfly_def)
  next
    case 4
    with assms kf_bfly5_graft [of F Fout d m n g fstride st w2 w] show ?thesis
      by (intro exI [of _ w2]) (simp add: kf_bfly_def)
  next
    case 5
    with assms kf_bfly_generic_graft [of F Fout d p m n g w w2 fstride st] show ?thesis
      by (intro exI [of _ "w2\<lparr>tmp_allocs := Suc (tmp_allocs w2)\<rparr>"]) (simp add: kf_bfly_def)
  qed
qed

lemma graft_self: "graft F n 0 w w = w"
proof -
  have "mem (graft F n 0 w w) = mem w"
    by (rule ext) (simp add: graft_def)
  then show ?thesis
    by (intro world.equality) (simp_all add: graft_def)
qed

lemma kf_bfly_frame:
  assumes "kf_bfly g Fout fstride st m p w = Some w'" "0 < m" "0 < p"
    "\<forall>c k. KISS_FFT_TMP_ALLOC g c k \<noteq> 0" "\<not> (Fout \<le> a \<and> a < Fout + p * m)"
  shows "mem w' a = mem w a"
proof -
  have "\<exists>w2'. mem w2' = mem w \<and>
      kf_bfly g (Fout + 0) fstride st m p (graft Fout (p * m) 0 w w) =
        map_option (graft Fout (p * m) 0 w2') (kf_bfly g Fout fstride st m p w)"
    using assms(2-4) by (intro kf_bfly_graft) auto
  then obtain w2' where w2': "mem w2' = mem w"
    and eq: "kf_bfly g (Fout + 0) fstride st m p (graft Fout (p * m) 0 w w) =
       map_option (graft Fout (p * m) 0 w2') (kf_bfly g Fout fstride st m p w)"
    by blast
  have "Some w' = map_option (graft Fout (p * m) 0 w2') (Some w')"
    using eq unfolding graft_self by (simp only: add_0_right assms(1))
  then have "w' = graft Fout (p * m) 0 w2' w'" by simp
  then have "mem w' a = mem (graft Fout (p * m) 0 w2' w') a"
    by (rule arg_cong)
  also have "\<dots> = mem w a"
    using assms(5) w2' by (auto simp: graft_def)
  finally show ?thesis .
qed

lemma related_mem1:
  "related F n d m1 m2 h w1 w2 \<Longrightarrow> \<not> (F - d \<le> a \<and> a < F - d + n) \<Longrightarrow> mem w1 a = m1 a"
  by (simp add: related_def)

lemma related_mem2:
  "related F n d m1 m2 h w1 w2 \<Longrightarrow> \<not> (h \<le> a \<and> a < F + n) \<Longrightarrow>
     mem w2 a = (if F \<le> a \<and> a < F + n then mem w1 (a - d) else m2 a)"
  by (simp add: related_def)

lemma kf_bfly_related:
  assumes rel: "related F n d m1 m2 h w1 w2"
    and b: "F \<le> Fout + d" "Fout + d + p * m \<le> h" "h \<le> F + n" "0 < m" "0 < p"
    and al: "\<forall>c k. KISS_FFT_TMP_ALLOC g c k \<noteq> 0"
  shows "rel_option (related F n d m1 m2 h)
     (kf_bfly g Fout fstride st m p w1) (kf_bfly g (Fout + d) fstride st m p w2)"
proof -
  let ?B = "Fout + d"
  have blk: "mem w2 a = mem w1 (a - d)" if "?B \<le> a" "a < ?B + p * m" for a
  proof -
    have "\<not> (h \<le> a \<and> a < F + n)" using that b by linarith
    from related_mem2 [OF rel this] that b show ?thesis by simp
  qed
  have "mem (graft ?B (p * m) d w2 w1) = mem w2"
    by (rule ext) (simp add: graft_def blk)
  then have w2: "graft ?B (p * m) d w2 w1 = w2"
    by (intro world.equality) (simp_all add: graft_def)
  from kf_bfly_graft [of ?B Fout d p m "p * m" g w2 fstride st w1] b al
  obtain w2' where w2': "mem w2' = mem w2"
    "kf_bfly g ?B fstride st m p (graft ?B (p * m) d w2 w1) =
       map_option (graft ?B (p * m) d w2') (kf_bfly g Fout fstride st m p w1)"
    by auto
  show ?thesis
    unfolding w2'(2) [unfolded w2]
  proof (rule rel_option_map)
    fix w1' assume r: "kf_bfly g Fout fstride st m p w1 = Some w1'"
    have fr: "mem w1' a = mem w1 a" if "\<not> (Fout \<le> a \<and> a < Fout + p * m)" for a
      using kf_bfly_frame [OF r b(4,5) al that] .
    show "related F n d m1 m2 h w1' (graft ?B (p * m) d w2' w1')"
      unfolding related_def
    proof (intro conjI allI impI)
      fix a assume o: "\<not> (F - d \<le> a \<and> a < F - d + n)"
      with b have "\<not> (Fout \<le> a \<and> a < Fout + p * m)" by linarith
      then have "mem w1' a = mem w1 a" by (rule fr)
      with related_mem1 [OF rel o] show "mem w1' a = m1 a" by simp
    next
      fix a assume h: "\<not> (h \<le> a \<and> a < F + n)"
      show "mem (graft ?B (p * m) d w2' w1') a = (if F \<le> a \<and> a < F + n then mem w1' (a - d) else m2 a)"
      proof (cases "?B \<le> a \<and> a < ?B + p * m")
        case True
        moreover from True b have "F \<le> a \<and> a < F + n" by linarith
        ultimately show ?thesis by (simp add: graft_def)
      next
        case False
        then have "\<not> (Fout \<le> a - d \<and> a - d < Fout + p * m)" by linarith
        then have e: "mem w1' (a - d) = mem w1 (a - d)" by (rule fr)
        have "mem (graft ?B (p * m) d w2' w1') a = mem w2 a"
          using False w2'(1) by (auto simp: graft_def)
        also have "\<dots> = (if F \<le> a \<and> a < F + n then mem w1 (a - d) else m2 a)"
          by (rule related_mem2 [OF rel h])
        finally show ?thesis using e by simp
      qed
    qed
  qed
qed

lemma rel_option_bind:
  "rel_option R x y \<Longrightarrow> (\<And>a b. R a b \<Longrightarrow> rel_option S (f a) (g b)) \<Longrightarrow>
     rel_option S (Option.bind x f) (Option.bind y g)"
  by (cases x; cases y) auto

lemma related_store:
  assumes "related F n d m1 m2 h w1 w2" "F \<le> h" "h < F + n"
  shows "related F n d m1 m2 (h + 1) (store (h - d) v w1) (store h v w2)"
  unfolding related_def
proof (intro conjI allI impI)
  fix a assume "\<not> (F - d \<le> a \<and> a < F - d + n)"
  with assms show "mem (store (h - d) v w1) a = m1 a"
    by (auto simp: store_def related_def)
next
  fix a assume a: "\<not> (h + 1 \<le> a \<and> a < F + n)"
  show "mem (store h v w2) a = (if F \<le> a \<and> a < F + n then mem (store (h - d) v w1) (a - d) else m2 a)"
  proof (cases "a = h")
    case True
    with assms show ?thesis by (simp add: store_def)
  next
    case False
    with a have "\<not> (h \<le> a \<and> a < F + n)" by linarith
    from related_mem2 [OF assms(1) this] False show ?thesis
      by (simp add: store_def)
  qed
qed

lemma kf_work_related:
  assumes al: "\<forall>c k. KISS_FFT_TMP_ALLOC g c k \<noteq> 0"
  shows "stage_factors N fs \<Longrightarrow> related F n d m1 m2 (Fout + d) w1 w2 \<Longrightarrow>
    F \<le> Fout + d \<Longrightarrow> Fout + d + N \<le> F + n \<Longrightarrow>
    (\<forall>t. 0 \<le> t \<and> t < N \<longrightarrow>
       m1 (f1 + fstride * in_stride * t) = m2 (f2 + fstride * in_stride * t)
       \<and> \<not> (F - d \<le> f1 + fstride * in_stride * t \<and> f1 + fstride * in_stride * t < F - d + n)
       \<and> \<not> (F \<le> f2 + fstride * in_stride * t \<and> f2 + fstride * in_stride * t < F + n)) \<Longrightarrow>
    rel_option (related F n d m1 m2 (Fout + d + N))
      (kf_work g Fout f1 fstride in_stride fs st w1)
      (kf_work g (Fout + d) f2 fstride in_stride fs st w2)"
proof (induction N fs arbitrary: Fout f1 f2 fstride w1 w2 rule: stage_factors.induct)
  case (1 N p m rest)
  from "1.prems"(1) have p: "1 \<le> p" and m: "1 \<le> m" and N: "p * m = N"
    and sub: "m = 1 \<or> stage_factors m rest"
    by auto
  note rel = "1.prems"(2) and lo = "1.prems"(3) and hi = "1.prems"(4)
  define c where "c = fstride * in_stride"
  have inp: "m1 (f1 + c * t) = m2 (f2 + c * t)"
      "\<not> (F - d \<le> f1 + c * t \<and> f1 + c * t < F - d + n)"
      "\<not> (F \<le> f2 + c * t \<and> f2 + c * t < F + n)"
    if "0 \<le> t" "t < N" for t
    using "1.prems"(5) that unfolding c_def by blast+
  define R where "R j s t \<longleftrightarrow> (\<exists>w1' w2'.
      s = (Fout + int j * m, f1 + c * int j, w1') \<and>
      t = (Fout + int j * m + d, f2 + c * int j, w2') \<and>
      related F n d m1 m2 (Fout + int j * m + d) w1' w2')"
    for j and s t :: "int \<times> int \<times> 'a world"
  define c1 where "c1 = (\<lambda>(Fout', f :: int, w :: 'a world). Fout' \<noteq> Fout + p * m)"
  define c2 where "c2 = (\<lambda>(Fout', f :: int, w :: 'a world). Fout' \<noteq> Fout + d + p * m)"
  have pos: "0 < nat p" using p by simp
  have R0: "R 0 (Fout, f1, w1) (Fout + d, f2, w2)"
    using rel by (simp add: R_def)
  have cnd: "c1 s = (j < nat p) \<and> c2 t = (j < nat p)" if "0 < j" "j \<le> nat p" "R j s t" for j s t
  proof -
    have "int j * m = p * m \<longleftrightarrow> int j = p"
      using m by simp
    with that show ?thesis
      by (auto simp: R_def c1_def c2_def)
  qed
  have range: "0 \<le> int j * m" "int j * m + m \<le> N" if "j < nat p" for j
  proof -
    show "0 \<le> int j * m" using m by simp
    have "(int j + 1) * m \<le> p * m"
      using that m by (intro mult_right_mono) auto
    then show "int j * m + m \<le> N"
      using N by (simp add: algebra_simps)
  qed
  have fin: "rel_option (related F n d m1 m2 (Fout + d + N))
      (Option.bind x (\<lambda>(Fout', f, w). kf_bfly g Fout fstride st m p w))
      (Option.bind y (\<lambda>(Fout', f, w). kf_bfly g (Fout + d) fstride st m p w))"
    if "rel_option (R (nat p)) x y" for x y
    using that
  proof (rule rel_option_bind)
    fix s t assume "R (nat p) s t"
    then obtain w1' w2' where s: "s = (Fout + int (nat p) * m, f1 + c * int (nat p), w1')"
      and t: "t = (Fout + int (nat p) * m + d, f2 + c * int (nat p), w2')"
      and r: "related F n d m1 m2 (Fout + int (nat p) * m + d) w1' w2'"
      unfolding R_def by blast
    have e: "Fout + int (nat p) * m + d = Fout + d + N"
      using p N by simp
    have "rel_option (related F n d m1 m2 (Fout + d + N))
        (kf_bfly g Fout fstride st m p w1') (kf_bfly g (Fout + d) fstride st m p w2')"
      using r [unfolded e] lo hi N m p al by (intro kf_bfly_related) auto
    then show "rel_option (related F n d m1 m2 (Fout + d + N))
        (case s of (Fout', f, w) \<Rightarrow> kf_bfly g Fout fstride st m p w)
        (case t of (Fout', f, w) \<Rightarrow> kf_bfly g (Fout + d) fstride st m p w)"
      by (simp add: s t)
  qed
  show ?case
  proof (cases "m = 1")
    case True
    define b where "b = (\<lambda>(Fout', f, w :: 'a world).
        Some (Fout' + 1, f + fstride * in_stride, store Fout' (mem w f) w))"
    have "rel_option (R (nat p)) (do_while b c1 (Fout, f1, w1)) (do_while b c2 (Fout + d, f2, w2))"
      using pos R0
    proof (rule do_while_rel)
      fix j s t assume j: "j < nat p" and "R j s t"
      then obtain w1' w2' where s: "s = (Fout + int j * m, f1 + c * int j, w1')"
        and t: "t = (Fout + int j * m + d, f2 + c * int j, w2')"
        and r: "related F n d m1 m2 (Fout + int j * m + d) w1' w2'"
        unfolding R_def by blast
      have jN: "0 \<le> int j" "int j < N"
        using j N True by simp_all
      let ?h = "Fout + int j * m + d"
      have h: "F \<le> ?h" "?h < F + n"
        using range [OF j] lo hi m by linarith+
      have v1: "mem w1' (f1 + c * int j) = m1 (f1 + c * int j)"
        using related_mem1 [OF r inp(2) [OF jN]] .
      have "\<not> (?h \<le> f2 + c * int j \<and> f2 + c * int j < F + n)"
        using inp(3) [OF jN] h by linarith
      from related_mem2 [OF r this] inp(3) [OF jN]
      have v2: "mem w2' (f2 + c * int j) = m2 (f2 + c * int j)"
        by simp
      have "related F n d m1 m2 (?h + 1)
          (store (?h - d) (m1 (f1 + c * int j)) w1') (store ?h (m1 (f1 + c * int j)) w2')"
        using r h by (rule related_store)
      then have "R (Suc j) (Fout + int j * m + 1, f1 + c * int j + c, store (Fout + int j * m) (m1 (f1 + c * int j)) w1')
          (Fout + int j * m + d + 1, f2 + c * int j + c, store ?h (m1 (f1 + c * int j)) w2')"
        using True by (simp add: R_def algebra_simps)
      then show "rel_option (R (Suc j)) (b s) (b t)"
        using v1 v2 inp(1) [OF jN] unfolding b_def s t c_def by simp
    qed (rule cnd)
    from fin [OF this] True show ?thesis
      by (simp add: b_def c1_def c2_def Let_def)
  next
    case False
    with sub have sf: "stage_factors m rest" by simp
    define b1 where "b1 = (\<lambda>(Fout', f, w :: 'a world).
        Option.bind (kf_work g Fout' f (fstride * p) in_stride rest st w)
          (\<lambda>w. Some (Fout' + m, f + fstride * in_stride, w)))"
    have "rel_option (R (nat p)) (do_while b1 c1 (Fout, f1, w1)) (do_while b1 c2 (Fout + d, f2, w2))"
      using pos R0
    proof (rule do_while_rel)
      fix j s t assume j: "j < nat p" and "R j s t"
      then obtain w1' w2' where s: "s = (Fout + int j * m, f1 + c * int j, w1')"
        and t: "t = (Fout + int j * m + d, f2 + c * int j, w2')"
        and r: "related F n d m1 m2 (Fout + int j * m + d) w1' w2'"
        unfolding R_def by blast
      let ?h = "Fout + int j * m + d"
      have h: "F \<le> ?h" "?h + m \<le> F + n"
        using range [OF j] lo hi by linarith+
      have jp: "0 \<le> int j" "int j < p" using j by simp_all
      have sub_inp: "\<forall>t. 0 \<le> t \<and> t < m \<longrightarrow>
          m1 (f1 + c * int j + fstride * p * in_stride * t) = m2 (f2 + c * int j + fstride * p * in_stride * t)
          \<and> \<not> (F - d \<le> f1 + c * int j + fstride * p * in_stride * t
                \<and> f1 + c * int j + fstride * p * in_stride * t < F - d + n)
          \<and> \<not> (F \<le> f2 + c * int j + fstride * p * in_stride * t
                \<and> f2 + c * int j + fstride * p * in_stride * t < F + n)"
      proof (intro allI impI)
        fix t assume t: "0 \<le> t \<and> t < m"
        have e: "c * int j + fstride * p * in_stride * t = c * (int j + t * p)"
          by (simp add: c_def algebra_simps)
        have "0 \<le> int j + t * p" "int j + t * p < m * p"
          using index_bound [OF jp, of t m] t by simp_all
        then have "0 \<le> int j + t * p" "int j + t * p < N"
          using N by (simp_all add: mult.commute)
        from inp [OF this] show
          "m1 (f1 + c * int j + fstride * p * in_stride * t) = m2 (f2 + c * int j + fstride * p * in_stride * t)
          \<and> \<not> (F - d \<le> f1 + c * int j + fstride * p * in_stride * t
                \<and> f1 + c * int j + fstride * p * in_stride * t < F - d + n)
          \<and> \<not> (F \<le> f2 + c * int j + fstride * p * in_stride * t
                \<and> f2 + c * int j + fstride * p * in_stride * t < F + n)"
          by (simp add: add.assoc e)
      qed
      have "rel_option (related F n d m1 m2 (Fout + int j * m + d + m))
          (kf_work g (Fout + int j * m) (f1 + c * int j) (fstride * p) in_stride rest st w1')
          (kf_work g (Fout + int j * m + d) (f2 + c * int j) (fstride * p) in_stride rest st w2')"
        using "1.IH" [OF sf r h sub_inp] .
      then have "rel_option (R (Suc j))
          (Option.bind (kf_work g (Fout + int j * m) (f1 + c * int j) (fstride * p) in_stride rest st w1')
            (\<lambda>w. Some (Fout + int j * m + m, f1 + c * int j + fstride * in_stride, w)))
          (Option.bind (kf_work g (Fout + int j * m + d) (f2 + c * int j) (fstride * p) in_stride rest st w2')
            (\<lambda>w. Some (Fout + int j * m + d + m, f2 + c * int j + fstride * in_stride, w)))"
      proof (rule rel_option_bind)
        fix a b assume "related F n d m1 m2 (Fout + int j * m + d + m) a b"
        then show "rel_option (R (Suc j))
            (Some (Fout + int j * m + m, f1 + c * int j + fstride * in_stride, a))
            (Some (Fout + int j * m + d + m, f2 + c * int j + fstride * in_stride, b))"
          by (simp add: R_def c_def algebra_simps)
      qed
      then show "rel_option (R (Suc j)) (b1 s) (b1 t)"
        by (simp add: b1_def s t)
    qed (rule cnd)
    from fin [OF this] False show ?thesis
      by (simp add: b1_def c1_def c2_def Let_def)
  qed
qed simp_all

lemma twiddle_Some: "0 \<le> k \<Longrightarrow> k < nfft st \<Longrightarrow> twiddle st k = Some (twiddles st k)"
  by (simp add: twiddle_def)

lemma scaled_index:
  fixes fstride j m c r N :: int
  assumes "0 < fstride" "0 \<le> j" "j < m" "0 \<le> c" "c < r" "fstride * r * m \<le> N"
  shows "0 \<le> c * j * fstride" "c * j * fstride < N"
proof -
  show "0 \<le> c * j * fstride"
    using assms by simp
  have "c * j \<le> c * m"
    using assms by (intro mult_left_mono) auto
  moreover have "(c + 1) * m \<le> r * m"
    using assms by (intro mult_right_mono) auto
  ultimately have "c * j < r * m"
    using assms by (simp add: algebra_simps)
  then have "fstride * (c * j) < fstride * (r * m)"
    using assms(1) by (intro mult_strict_left_mono)
  with assms(6) show "c * j * fstride < N"
    by (simp add: algebra_simps)
qed

lemma scaled_length:
  fixes fstride m c r N :: int
  assumes "0 < fstride" "0 < m" "0 \<le> c" "c < r" "fstride * r * m \<le> N"
  shows "0 \<le> fstride * c * m" "fstride * c * m < N"
proof -
  show "0 \<le> fstride * c * m"
    using assms by simp
  have "0 < fstride * m"
    using assms by simp
  then have "c * (fstride * m) < r * (fstride * m)"
    using assms(4) by (intro mult_strict_right_mono)
  with assms(5) show "fstride * c * m < N"
    by (simp add: algebra_simps)
qed

lemma kf_bfly2_body_total:
  "twiddle st tw1 = Some a \<Longrightarrow>
     \<exists>w'. kf_bfly2_body g fstride st (Fout, Fout2, tw1, k, w)
        = Some (Fout + 1, Fout2 + 1, tw1 + fstride, k - 1, w')"
  by (simp add: kf_bfly2_body_def Let_def)

lemma kf_bfly2_total:
  assumes "0 < m" "0 < fstride" "fstride * 2 * m \<le> nfft st"
  shows "\<exists>w'. kf_bfly2 g Fout fstride st m w = Some w'"
proof -
  define P where "P j s \<longleftrightarrow> (\<exists>w'. s = (Fout + int j, Fout + m + int j, int j * fstride, m - int j, w'))"
    for j and s :: "int \<times> int \<times> int \<times> int \<times> 'a world"
  have "\<exists>s'. do_while (kf_bfly2_body g fstride st) (\<lambda>(Fout, Fout2, tw1, m, w). m \<noteq> 0)
          (Fout, Fout + m, 0, m, w) = Some s' \<and> P (nat m) s'"
  proof (rule do_while_total)
    show "0 < nat m" using assms(1) by simp
    show "P 0 (Fout, Fout + m, 0, m, w)" by (simp add: P_def)
  next
    fix j s assume j: "j < nat m" and "P j s"
    then obtain w' where s: "s = (Fout + int j, Fout + m + int j, int j * fstride, m - int j, w')"
      unfolding P_def by blast
    have "0 \<le> int j * fstride" "int j * fstride < nfft st"
      using scaled_index [of fstride "int j" m 1 2 "nfft st"] assms j by simp_all
    then have "twiddle st (int j * fstride) = Some (twiddles st (int j * fstride))"
      by (rule twiddle_Some)
    from kf_bfly2_body_total [OF this, of g fstride "Fout + int j" "Fout + m + int j" "m - int j" w']
    show "\<exists>s'. kf_bfly2_body g fstride st s = Some s' \<and> P (Suc j) s'"
      by (auto simp: s P_def algebra_simps)
  next
    fix j s assume "0 < j" "j \<le> nat m" "P j s"
    then show "(case s of (Fout, Fout2, tw1, m, w) \<Rightarrow> m \<noteq> 0) = (j < nat m)"
      by (auto simp: P_def)
  qed
  then show ?thesis
    by (auto simp: kf_bfly2_def)
qed

lemma kf_bfly4_body_total:
  "twiddle st tw1 = Some a \<Longrightarrow> twiddle st tw2 = Some b \<Longrightarrow> twiddle st tw3 = Some c \<Longrightarrow>
     \<exists>w'. kf_bfly4_body g fstride st m (Fout, tw1, tw2, tw3, k, w)
        = Some (Fout + 1, tw1 + fstride, tw2 + fstride * 2, tw3 + fstride * 3, k - 1, w')"
  by (simp add: kf_bfly4_body_def Let_def)

lemma kf_bfly4_total:
  assumes "0 < m" "0 < fstride" "fstride * 4 * m \<le> nfft st"
  shows "\<exists>w'. kf_bfly4 g Fout fstride st m w = Some w'"
proof -
  define P where "P j s \<longleftrightarrow> (\<exists>w'. s = (Fout + int j, int j * fstride, 2 * int j * fstride,
      3 * int j * fstride, m - int j, w'))"
    for j and s :: "int \<times> int \<times> int \<times> int \<times> int \<times> 'a world"
  have "\<exists>s'. do_while (kf_bfly4_body g fstride st m) (\<lambda>(Fout, tw1, tw2, tw3, k, w). k \<noteq> 0)
          (Fout, 0, 0, 0, m, w) = Some s' \<and> P (nat m) s'"
  proof (rule do_while_total)
    show "0 < nat m" using assms(1) by simp
    show "P 0 (Fout, 0, 0, 0, m, w)" by (simp add: P_def)
  next
    fix j s assume j: "j < nat m" and "P j s"
    then obtain w' where s: "s = (Fout + int j, int j * fstride, 2 * int j * fstride,
        3 * int j * fstride, m - int j, w')"
      unfolding P_def by blast
    have "0 \<le> int j * fstride" "int j * fstride < nfft st"
      using scaled_index [of fstride "int j" m 1 4 "nfft st"] assms j by simp_all
    then have t1: "twiddle st (int j * fstride) = Some (twiddles st (int j * fstride))"
      by (rule twiddle_Some)
    have "0 \<le> 2 * int j * fstride" "2 * int j * fstride < nfft st"
      using scaled_index [of fstride "int j" m 2 4 "nfft st"] assms j by simp_all
    then have t2: "twiddle st (2 * int j * fstride) = Some (twiddles st (2 * int j * fstride))"
      by (rule twiddle_Some)
    have "0 \<le> 3 * int j * fstride" "3 * int j * fstride < nfft st"
      using scaled_index [of fstride "int j" m 3 4 "nfft st"] assms j by simp_all
    then have t3: "twiddle st (3 * int j * fstride) = Some (twiddles st (3 * int j * fstride))"
      by (rule twiddle_Some)
    from kf_bfly4_body_total [OF t1 t2 t3, of g fstride m "Fout + int j" "m - int j" w']
    show "\<exists>s'. kf_bfly4_body g fstride st m s = Some s' \<and> P (Suc j) s'"
      by (auto simp: s P_def algebra_simps)
  next
    fix j s assume "0 < j" "j \<le> nat m" "P j s"
    then show "(case s of (Fout, tw1, tw2, tw3, k, w) \<Rightarrow> k \<noteq> 0) = (j < nat m)"
      by (auto simp: P_def)
  qed
  then show ?thesis
    by (auto simp: kf_bfly4_def)
qed

lemma kf_bfly3_body_total:
  "twiddle st tw1 = Some a \<Longrightarrow> twiddle st tw2 = Some b \<Longrightarrow>
     \<exists>w'. kf_bfly3_body g fstride st m epi3 (Fout, tw1, tw2, k, w)
        = Some (Fout + 1, tw1 + fstride, tw2 + fstride * 2, k - 1, w')"
  by (simp add: kf_bfly3_body_def Let_def)

lemma kf_bfly3_total:
  assumes "0 < m" "0 < fstride" "fstride * 3 * m \<le> nfft st"
  shows "\<exists>w'. kf_bfly3 g Fout fstride st m w = Some w'"
proof -
  define P where "P j s \<longleftrightarrow> (\<exists>w'. s = (Fout + int j, int j * fstride, 2 * int j * fstride,
      m - int j, w'))"
    for j and s :: "int \<times> int \<times> int \<times> int \<times> 'a world"
  have "0 \<le> fstride * m" "fstride * m < nfft st"
    using scaled_length [of fstride m 1 3 "nfft st"] assms by simp_all
  then have e: "twiddle st (fstride * m) = Some (twiddles st (fstride * m))"
    by (rule twiddle_Some)
  have "\<exists>s'. do_while (kf_bfly3_body g fstride st m (twiddles st (fstride * m)))
          (\<lambda>(Fout, tw1, tw2, k, w). k \<noteq> 0) (Fout, 0, 0, m, w) = Some s' \<and> P (nat m) s'"
  proof (rule do_while_total)
    show "0 < nat m" using assms(1) by simp
    show "P 0 (Fout, 0, 0, m, w)" by (simp add: P_def)
  next
    fix j s assume j: "j < nat m" and "P j s"
    then obtain w' where s: "s = (Fout + int j, int j * fstride, 2 * int j * fstride, m - int j, w')"
      unfolding P_def by blast
    have "0 \<le> int j * fstride" "int j * fstride < nfft st"
      using scaled_index [of fstride "int j" m 1 3 "nfft st"] assms j by simp_all
    then have t1: "twiddle st (int j * fstride) = Some (twiddles st (int j * fstride))"
      by (rule twiddle_Some)
    have "0 \<le> 2 * int j * fstride" "2 * int j * fstride < nfft st"
      using scaled_index [of fstride "int j" m 2 3 "nfft st"] assms j by simp_all
    then have t2: "twiddle st (2 * int j * fstride) = Some (twiddles st (2 * int j * fstride))"
      by (rule twiddle_Some)
    from kf_bfly3_body_total [OF t1 t2, of g fstride m "twiddles st (fstride * m)" "Fout + int j" "m - int j" w']
    show "\<exists>s'. kf_bfly3_body g fstride st m (twiddles st (fstride * m)) s = Some s' \<and> P (Suc j) s'"
      by (auto simp: s P_def algebra_simps)
  next
    fix j s assume "0 < j" "j \<le> nat m" "P j s"
    then show "(case s of (Fout, tw1, tw2, k, w) \<Rightarrow> k \<noteq> 0) = (j < nat m)"
      by (auto simp: P_def)
  qed
  then show ?thesis
    by (auto simp: kf_bfly3_def e)
qed

lemma kf_bfly5_body_total:
  "twiddle st (u * fstride) = Some a \<Longrightarrow> twiddle st (2 * u * fstride) = Some b \<Longrightarrow>
   twiddle st (3 * u * fstride) = Some c \<Longrightarrow> twiddle st (4 * u * fstride) = Some d \<Longrightarrow>
     \<exists>w'. kf_bfly5_body g fstride st ya yb u (Fout0, Fout1, Fout2, Fout3, Fout4, w)
        = Some (Fout0 + 1, Fout1 + 1, Fout2 + 1, Fout3 + 1, Fout4 + 1, w')"
  by (simp add: kf_bfly5_body_def Let_def)

lemma kf_bfly5_total:
  assumes "0 < m" "0 < fstride" "fstride * 5 * m \<le> nfft st"
  shows "\<exists>w'. kf_bfly5 g Fout fstride st m w = Some w'"
proof -
  define P where "P u s \<longleftrightarrow> (\<exists>w'. s = (Fout + u, Fout + m + u, Fout + 2 * m + u,
      Fout + 3 * m + u, Fout + 4 * m + u, w'))"
    for u and s :: "int \<times> int \<times> int \<times> int \<times> int \<times> 'a world"
  have "0 \<le> fstride * m" "fstride * m < nfft st"
    using scaled_length [of fstride m 1 5 "nfft st"] assms by simp_all
  then have ya: "twiddle st (fstride * m) = Some (twiddles st (fstride * m))"
    by (rule twiddle_Some)
  have "0 \<le> fstride * 2 * m" "fstride * 2 * m < nfft st"
    using scaled_length [of fstride m 2 5 "nfft st"] assms by simp_all
  then have yb: "twiddle st (fstride * 2 * m) = Some (twiddles st (fstride * 2 * m))"
    by (rule twiddle_Some)
  have "\<exists>s'. for_loop 0 m (kf_bfly5_body g fstride st (twiddles st (fstride * m)) (twiddles st (fstride * 2 * m)))
          (Fout, Fout + m, Fout + 2 * m, Fout + 3 * m, Fout + 4 * m, w) = Some s' \<and> P (max 0 m) s'"
  proof (rule for_loop_total)
    show "P 0 (Fout, Fout + m, Fout + 2 * m, Fout + 3 * m, Fout + 4 * m, w)"
      by (simp add: P_def)
  next
    fix u s assume u: "0 \<le> u" "u < m" and "P u s"
    then obtain w' where s: "s = (Fout + u, Fout + m + u, Fout + 2 * m + u,
        Fout + 3 * m + u, Fout + 4 * m + u, w')"
      unfolding P_def by blast
    have "0 \<le> u * fstride" "u * fstride < nfft st"
      using scaled_index [of fstride u m 1 5 "nfft st"] assms u by simp_all
    then have t1: "twiddle st (u * fstride) = Some (twiddles st (u * fstride))"
      by (rule twiddle_Some)
    have "0 \<le> 2 * u * fstride" "2 * u * fstride < nfft st"
      using scaled_index [of fstride u m 2 5 "nfft st"] assms u by simp_all
    then have t2: "twiddle st (2 * u * fstride) = Some (twiddles st (2 * u * fstride))"
      by (rule twiddle_Some)
    have "0 \<le> 3 * u * fstride" "3 * u * fstride < nfft st"
      using scaled_index [of fstride u m 3 5 "nfft st"] assms u by simp_all
    then have t3: "twiddle st (3 * u * fstride) = Some (twiddles st (3 * u * fstride))"
      by (rule twiddle_Some)
    have "0 \<le> 4 * u * fstride" "4 * u * fstride < nfft st"
      using scaled_index [of fstride u m 4 5 "nfft st"] assms u by simp_all
    then have t4: "twiddle st (4 * u * fstride) = Some (twiddles st (4 * u * fstride))"
      by (rule twiddle_Some)
    from kf_bfly5_body_total [OF t1 t2 t3 t4, of g "twiddles st (fstride * m)" "twiddles st (fstride * 2 * m)"
        "Fout + u" "Fout + m + u" "Fout + 2 * m + u" "Fout + 3 * m + u" "Fout + 4 * m + u" w']
    show "\<exists>s'. kf_bfly5_body g fstride st (twiddles st (fstride * m)) (twiddles st (fstride * 2 * m)) u s
            = Some s' \<and> P (u + 1) s'"
      by (auto simp: s P_def algebra_simps)
  qed
  then show ?thesis
    by (auto simp: kf_bfly5_def ya yb)
qed

lemma int_of_size_t_id: "0 \<le> v \<Longrightarrow> v < 2147483648 \<Longrightarrow> int_of_size_t v = v"
  by (simp add: int_of_size_t_def signed_take_bit_int_eq_self)

lemma kf_bfly_generic_load_total:
  "\<exists>k' scratch. for_loop 0 p (kf_bfly_generic_load Fout m p w) (k, Map.empty) = Some (k', scratch)
     \<and> (\<forall>q. 0 \<le> q \<and> q < p \<longrightarrow> scratch q \<noteq> None)"
proof -
  define P where "P i s \<longleftrightarrow> (\<forall>q. 0 \<le> q \<and> q < i \<longrightarrow> snd s q \<noteq> None)"
    for i :: int and s :: "int \<times> (int \<Rightarrow> 'a kiss_fft_cpx option)"
  have "\<exists>s'. for_loop 0 p (kf_bfly_generic_load Fout m p w) (k, Map.empty) = Some s' \<and> P (max 0 p) s'"
  proof (rule for_loop_total)
    show "P 0 (k, Map.empty)" by (simp add: P_def)
  next
    fix i and s :: "int \<times> (int \<Rightarrow> 'a kiss_fft_cpx option)"
    assume "0 \<le> i" "i < p" "P i s"
    then show "\<exists>s'. kf_bfly_generic_load Fout m p w i s = Some s' \<and> P (i + 1) s'"
      by (cases s) (auto simp: kf_bfly_generic_load_def Let_def P_def)
  qed
  then show ?thesis
    by (auto simp: P_def)
qed

lemma kf_bfly_generic_acc_total:
  assumes "0 \<le> twidx" "twidx < nfft st" "0 \<le> fstride * k" "fstride * k < nfft st"
    "nfft st \<le> 1073741824" "scratch q = Some c"
  shows "\<exists>twidx' w'. kf_bfly_generic_acc g Fout fstride st (nfft st) scratch k q (twidx, w) = Some (twidx', w')
     \<and> 0 \<le> twidx' \<and> twidx' < nfft st"
proof -
  have e: "int_of_size_t (twidx + fstride * k) = twidx + fstride * k"
    using assms by (intro int_of_size_t_id) auto
  show ?thesis
  proof (cases "nfft st \<le> twidx + fstride * k")
    case True
    then have "0 \<le> twidx + fstride * k - nfft st" "twidx + fstride * k - nfft st < nfft st"
      using assms by auto
    then have "twiddle st (twidx + fstride * k - nfft st) = Some (twiddles st (twidx + fstride * k - nfft st))"
      by (rule twiddle_Some)
    with True assms show ?thesis
      by (simp add: kf_bfly_generic_acc_def Let_def e)
  next
    case False
    then have "0 \<le> twidx + fstride * k" "twidx + fstride * k < nfft st"
      using assms by auto
    then have "twiddle st (twidx + fstride * k) = Some (twiddles st (twidx + fstride * k))"
      by (rule twiddle_Some)
    with False assms show ?thesis
      by (simp add: kf_bfly_generic_acc_def Let_def e)
  qed
qed

lemma kf_bfly_generic_out_total:
  assumes "0 < p" "0 \<le> fstride * k" "fstride * k < nfft st" "nfft st \<le> 1073741824"
    "\<forall>q. 0 \<le> q \<and> q < p \<longrightarrow> scratch q \<noteq> None"
  shows "\<exists>w'. kf_bfly_generic_out g Fout fstride st (nfft st) m p scratch q1 (k, w) = Some (k + m, w')"
proof -
  from assms obtain c where c: "scratch 0 = Some c"
    by auto
  define P where "P q s \<longleftrightarrow> 0 \<le> fst s \<and> fst s < nfft st"
    for q :: int and s :: "int \<times> 'a world"
  have n: "0 < nfft st"
    using assms by linarith
  have "\<exists>s'. for_loop 1 p (kf_bfly_generic_acc g Fout fstride st (nfft st) scratch k) (0, store (Fout + k) c w)
      = Some s' \<and> P (max 1 p) s'"
  proof (rule for_loop_total)
    show "P 1 (0, store (Fout + k) c w)" using n by (simp add: P_def)
  next
    fix q and s :: "int \<times> 'a world"
    assume q: "1 \<le> q" "q < p" and "P q s"
    then obtain twidx w' where s: "s = (twidx, w')" and t: "0 \<le> twidx" "twidx < nfft st"
      by (cases s) (auto simp: P_def)
    from assms(5) q obtain c' where "scratch q = Some c'"
      by fastforce
    with t assms(2,3,4)
    have "\<exists>twidx' w''. kf_bfly_generic_acc g Fout fstride st (nfft st) scratch k q (twidx, w')
        = Some (twidx', w'') \<and> 0 \<le> twidx' \<and> twidx' < nfft st"
      by (rule kf_bfly_generic_acc_total)
    then show "\<exists>s'. kf_bfly_generic_acc g Fout fstride st (nfft st) scratch k q s = Some s' \<and> P (q + 1) s'"
      by (auto simp: s P_def)
  qed
  then show ?thesis
    by (auto simp: kf_bfly_generic_out_def Let_def c)
qed

lemma kf_bfly_generic_body_total:
  assumes "0 < p" "0 < m" "0 < fstride" "fstride * p * m \<le> nfft st" "nfft st \<le> 1073741824"
    "0 \<le> u" "u < m"
  shows "\<exists>w'. kf_bfly_generic_body g Fout fstride st (nfft st) m p u w = Some w'"
proof -
  from kf_bfly_generic_load_total [of p Fout m w u]
  obtain k' scratch where l: "for_loop 0 p (kf_bfly_generic_load Fout m p w) (u, Map.empty) = Some (k', scratch)"
    and sc: "\<forall>q. 0 \<le> q \<and> q < p \<longrightarrow> scratch q \<noteq> None"
    by blast
  define P where "P q s \<longleftrightarrow> fst s = u + q * m" for q :: int and s :: "int \<times> 'a world"
  have "\<exists>s'. for_loop 0 p (kf_bfly_generic_out g Fout fstride st (nfft st) m p scratch) (u, w) = Some s'
      \<and> P (max 0 p) s'"
  proof (rule for_loop_total)
    show "P 0 (u, w)" by (simp add: P_def)
  next
    fix q and s :: "int \<times> 'a world"
    assume q: "0 \<le> q" "q < p" and "P q s"
    then obtain w' where s: "s = (u + q * m, w')"
      by (cases s) (auto simp: P_def)
    have k: "0 \<le> u + q * m" "u + q * m < p * m"
      using index_bound [OF assms(6,7) q] .
    have "fstride * (u + q * m) < fstride * (p * m)"
      using k assms(3) by (intro mult_strict_left_mono)
    moreover have "fstride * (p * m) \<le> nfft st"
      using assms(4) by (simp add: mult.assoc)
    ultimately have b2: "fstride * (u + q * m) < nfft st"
      by linarith
    have b1: "0 \<le> fstride * (u + q * m)"
      using k(1) assms(3) by simp
    note b = b1 b2
    from kf_bfly_generic_out_total [OF assms(1) b assms(5) sc, of g Fout m q w']
    show "\<exists>s'. kf_bfly_generic_out g Fout fstride st (nfft st) m p scratch q s = Some s' \<and> P (q + 1) s'"
      by (auto simp: s P_def algebra_simps)
  qed
  then show ?thesis
    by (auto simp: kf_bfly_generic_body_def Let_def l)
qed

lemma kf_bfly_generic_total:
  assumes "0 < p" "0 < m" "0 < fstride" "fstride * p * m \<le> nfft st" "nfft st \<le> 1073741824"
  shows "\<exists>w'. kf_bfly_generic g Fout fstride st m p w = Some w'"
proof -
  have "\<exists>s'. for_loop 0 m (kf_bfly_generic_body g Fout fstride st (nfft st) m p) w0 = Some s' \<and> True"
    for w0 :: "'a world"
    by (rule for_loop_total [where P = "\<lambda>i s. True"])
       (use kf_bfly_generic_body_total [OF assms] in auto)
  then show ?thesis
    by (simp add: kf_bfly_generic_def Let_def)
qed

lemma kf_bfly_total:
  assumes "0 < p" "0 < m" "0 < fstride" "fstride * p * m \<le> nfft st" "nfft st \<le> 1073741824"
  shows "\<exists>w'. kf_bfly g Fout fstride st m p w = Some w'"
  using kf_bfly2_total [of m fstride st g Fout w] kf_bfly3_total [of m fstride st g Fout w]
    kf_bfly4_total [of m fstride st g Fout w] kf_bfly5_total [of m fstride st g Fout w]
    kf_bfly_generic_total [OF assms, of g Fout w] assms
  by (auto simp: kf_bfly_def)

lemma kf_work_total:
  assumes big: "nfft st \<le> 1073741824"
  shows "stage_factors N fs \<Longrightarrow> 0 < fstride \<Longrightarrow> fstride * N \<le> nfft st \<Longrightarrow>
    \<exists>w'. kf_work g Fout f fstride in_stride fs st w = Some w'"
proof (induction N fs arbitrary: Fout f fstride w rule: stage_factors.induct)
  case (1 N p m rest)
  from "1.prems"(1) have p: "1 \<le> p" and m: "1 \<le> m" and N: "p * m = N"
    and sub: "m = 1 \<or> stage_factors m rest"
    by auto
  note fs = "1.prems"(2) and le = "1.prems"(3)
  define P where "P j s \<longleftrightarrow> fst s = Fout + int j * m"
    for j and s :: "int \<times> int \<times> 'a world"
  define c where "c = (\<lambda>(Fout', f :: int, w :: 'a world). Fout' \<noteq> Fout + p * m)"
  have pos: "0 < nat p" using p by simp
  have P0: "P 0 (Fout, f, w)"
    by (simp add: P_def)
  have cnd: "c s = (j < nat p)" if "0 < j" "j \<le> nat p" "P j s" for j s
  proof -
    have "int j * m = p * m \<longleftrightarrow> int j = p"
      using m by simp
    with that show ?thesis
      by (cases s) (auto simp: P_def c_def)
  qed
  have fin: "\<exists>w'. Option.bind x (\<lambda>(Fout', f, w). kf_bfly g Fout fstride st m p w) = Some w'"
    if "\<exists>s'. x = Some s' \<and> P (nat p) s'" for x
  proof -
    from that obtain Fout' f' w' where "x = Some (Fout', f', w')"
      by (metis prod_cases3)
    moreover have "\<exists>w''. kf_bfly g Fout fstride st m p w' = Some w''"
      using p m fs le N big by (intro kf_bfly_total) (auto simp: mult.assoc)
    ultimately show ?thesis by simp
  qed
  show ?case
  proof (cases "m = 1")
    case True
    define b where "b = (\<lambda>(Fout', f, w :: 'a world).
        Some (Fout' + 1, f + fstride * in_stride, store Fout' (mem w f) w))"
    have "\<exists>s'. do_while b c (Fout, f, w) = Some s' \<and> P (nat p) s'"
      using pos P0
    proof (rule do_while_total)
      fix j s assume "j < nat p" "P j s"
      then show "\<exists>s'. b s = Some s' \<and> P (Suc j) s'"
        using True by (cases s) (auto simp: P_def b_def algebra_simps)
    qed (rule cnd)
    from fin [OF this] True show ?thesis
      by (simp add: b_def c_def Let_def)
  next
    case False
    with sub have sf: "stage_factors m rest" by simp
    define b where "b = (\<lambda>(Fout', f, w :: 'a world).
        Option.bind (kf_work g Fout' f (fstride * p) in_stride rest st w)
          (\<lambda>w. Some (Fout' + m, f + fstride * in_stride, w)))"
    have fp: "0 < fstride * p" "fstride * p * m \<le> nfft st"
      using fs p le N by (auto simp: mult.assoc)
    have "\<exists>s'. do_while b c (Fout, f, w) = Some s' \<and> P (nat p) s'"
      using pos P0
    proof (rule do_while_total)
      fix j s assume "j < nat p" "P j s"
      then obtain f' w' where s: "s = (Fout + int j * m, f', w')"
        by (cases s) (auto simp: P_def)
      from "1.IH" [OF sf fp, of "Fout + int j * m" f' w']
      show "\<exists>s'. b s = Some s' \<and> P (Suc j) s'"
        by (auto simp: s b_def P_def algebra_simps)
    qed (rule cnd)
    from fin [OF this] False show ?thesis
      by (simp add: b_def c_def Let_def)
  qed
qed simp_all

lemma kf_factor_stage:
  assumes "1 \<le> N" "kf_factor N = Some fs"
  shows "stage_factors N fs"
proof -
  from assms have "floor_sqrt N = Some (isqrt_from 0 N)"
    by (simp add: floor_sqrt_Some)
  with kf_factor_loop_total [OF assms(1), of 4 "isqrt_from 0 N"] assms(2) show ?thesis
    by (auto simp: kf_factor_def)
qed

text \<open>
  Claim C2.  Take a plan of length \<open>N \<ge> 1\<close> whose factor buffer was written by
  \<^verbatim>\<open>kf_factor\<close>, and two calls of \<^verbatim>\<open>kiss_fft_stride\<close>: one with \<^verbatim>\<open>fin = fout\<close>, the other
  with distinct buffers, on input samples that are a copy of those of the first.  The aliased
  call is \<^verbatim>\<open>kf_work\<close> into the temporary buffer followed by the copy of that buffer to the
  output, and either both calls have no result or both return and the \<open>N\<close> output samples of
  the one are the \<open>N\<close> output samples of the other; for \<open>N \<le> 2\<^sup>3\<^sup>0\<close> both calls return.  The
  allocator is assumed not to fail, and the input samples lie outside the block that
  \<^verbatim>\<open>kf_work\<close> writes.
\<close>

theorem kiss_fft_stride_in_place_as_copy:
  assumes plan: "1 \<le> nfft st" "kf_factor (nfft st) = Some (factors st)"
    and al: "\<forall>c k. KISS_FFT_TMP_ALLOC g c k \<noteq> 0"
    and io: "fio \<noteq> 0" "fin \<noteq> fout"
    and tmp: "tmpbuf = KISS_FFT_TMP_ALLOC g (tmp_allocs w2) (nfft st)"
    and copy: "\<forall>t. 0 \<le> t \<and> t < nfft st \<longrightarrow>
        mem w1 (fin + in_stride * t) = mem w2 (fio + in_stride * t)"
    and sep1: "\<forall>t. 0 \<le> t \<and> t < nfft st \<longrightarrow>
        \<not> (fout \<le> fin + in_stride * t \<and> fin + in_stride * t < fout + nfft st)"
    and sep2: "\<forall>t. 0 \<le> t \<and> t < nfft st \<longrightarrow>
        \<not> (tmpbuf \<le> fio + in_stride * t \<and> fio + in_stride * t < tmpbuf + nfft st)"
  shows "kiss_fft_stride g st fio fio in_stride w2 =
           Option.bind
             (kf_work g tmpbuf fio 1 in_stride (factors st) st (w2\<lparr>tmp_allocs := Suc (tmp_allocs w2)\<rparr>))
             (\<lambda>w. Some (memcpy_cpx fio tmpbuf (nfft st) w))
         \<and> rel_option (\<lambda>w1' w2'. \<forall>a. 0 \<le> a \<and> a < nfft st \<longrightarrow> mem w1' (fout + a) = mem w2' (fio + a))
             (kiss_fft_stride g st fin fout in_stride w1)
             (kiss_fft_stride g st fio fio in_stride w2)
         \<and> (nfft st \<le> 1073741824 \<longrightarrow>
              (\<exists>w1' w2'. kiss_fft_stride g st fin fout in_stride w1 = Some w1'
                 \<and> kiss_fft_stride g st fio fio in_stride w2 = Some w2'))"
proof -
  define N where "N = nfft st"
  define d where "d = tmpbuf - fout"
  define w2a where "w2a = w2\<lparr>tmp_allocs := Suc (tmp_allocs w2)\<rparr>"
  have t0: "tmpbuf \<noteq> 0"
    using al tmp by simp
  have e2: "kiss_fft_stride g st fio fio in_stride w2 =
      Option.bind (kf_work g tmpbuf fio 1 in_stride (factors st) st w2a)
        (\<lambda>w. Some (memcpy_cpx fio tmpbuf N w))"
    using io t0 tmp by (simp add: kiss_fft_stride_def Let_def w2a_def N_def)
  have e1: "kiss_fft_stride g st fin fout in_stride w1 =
      kf_work g fout fin 1 in_stride (factors st) st w1"
    using io by (simp add: kiss_fft_stride_def)
  have sf: "stage_factors N (factors st)"
    using plan unfolding N_def by (rule kf_factor_stage)
  have rel: "related tmpbuf N d (mem w1) (mem w2a) (fout + d) w1 w2a"
    by (simp add: related_def d_def)
  have inp: "\<forall>t. 0 \<le> t \<and> t < N \<longrightarrow>
       mem w1 (fin + 1 * in_stride * t) = mem w2a (fio + 1 * in_stride * t)
       \<and> \<not> (tmpbuf - d \<le> fin + 1 * in_stride * t \<and> fin + 1 * in_stride * t < tmpbuf - d + N)
       \<and> \<not> (tmpbuf \<le> fio + 1 * in_stride * t \<and> fio + 1 * in_stride * t < tmpbuf + N)"
    using copy sep1 sep2 by (simp add: N_def d_def w2a_def)
  have "rel_option (related tmpbuf N d (mem w1) (mem w2a) (fout + d + N))
      (kf_work g fout fin 1 in_stride (factors st) st w1)
      (kf_work g (fout + d) fio 1 in_stride (factors st) st w2a)"
    using al sf rel _ _ inp by (rule kf_work_related) (simp_all add: d_def)
  then have r: "rel_option (related tmpbuf N d (mem w1) (mem w2a) (tmpbuf + N))
      (kf_work g fout fin 1 in_stride (factors st) st w1)
      (kf_work g tmpbuf fio 1 in_stride (factors st) st w2a)"
    by (simp add: d_def)
  have "rel_option (\<lambda>w1' w2'. \<forall>a. 0 \<le> a \<and> a < N \<longrightarrow> mem w1' (fout + a) = mem w2' (fio + a))
      (Option.bind (kf_work g fout fin 1 in_stride (factors st) st w1) Some)
      (Option.bind (kf_work g tmpbuf fio 1 in_stride (factors st) st w2a)
        (\<lambda>w. Some (memcpy_cpx fio tmpbuf N w)))"
    using r
  proof (rule rel_option_bind)
    fix a b assume "related tmpbuf N d (mem w1) (mem w2a) (tmpbuf + N) a b"
    then have "mem b x = (if tmpbuf \<le> x \<and> x < tmpbuf + N then mem a (x - d) else mem w2a x)" for x
      by (simp add: related_def)
    then show "rel_option (\<lambda>w1' w2'. \<forall>a. 0 \<le> a \<and> a < N \<longrightarrow> mem w1' (fout + a) = mem w2' (fio + a))
        (Some a) (Some (memcpy_cpx fio tmpbuf N b))"
      by (simp add: memcpy_cpx_def d_def algebra_simps)
  qed
  then have r': "rel_option (\<lambda>w1' w2'. \<forall>a. 0 \<le> a \<and> a < N \<longrightarrow> mem w1' (fout + a) = mem w2' (fio + a))
      (kiss_fft_stride g st fin fout in_stride w1) (kiss_fft_stride g st fio fio in_stride w2)"
    using e1 e2 by simp
  have "\<exists>w1' w2'. kiss_fft_stride g st fin fout in_stride w1 = Some w1'
      \<and> kiss_fft_stride g st fio fio in_stride w2 = Some w2'"
    if big: "nfft st \<le> 1073741824"
  proof -
    have "\<exists>w'. kf_work g fout fin 1 in_stride (factors st) st w1 = Some w'"
      using big sf by (rule kf_work_total) (simp_all add: N_def)
    with e1 obtain w1' where "kiss_fft_stride g st fin fout in_stride w1 = Some w1'"
      by auto
    with r' show ?thesis
      by (auto elim: option.rel_cases)
  qed
  with r' e2 show ?thesis
    by (simp add: N_def w2a_def)
qed

theorem kiss_fft_stride_in_place_as_copy_witness:
  "\<exists>w1' w2'. kiss_fft_stride (int_guts (\<lambda>c n. 100)) plan4 10 20 1 ramp_world = Some w1'
     \<and> kiss_fft_stride (int_guts (\<lambda>c n. 100)) plan4 10 10 1 ramp_world = Some w2'
     \<and> map (mem w1') [20, 21, 22, 23] = map (mem w2') [10, 11, 12, 13]"
proof -
  have f: "kf_factor 4 = Some [4, 1]"
    by code_simp
  have n: "nfft plan4 = 4" "factors plan4 = [4, 1]"
    by (simp_all add: plan4_def)
  have a: "KISS_FFT_TMP_ALLOC (int_guts (\<lambda>c n. 100)) c k = 100" for c k
    by (simp add: int_guts_def)
  have h1: "1 \<le> nfft plan4" "kf_factor (nfft plan4) = Some (factors plan4)"
    by (simp_all add: n f)
  have h2: "\<forall>c k. KISS_FFT_TMP_ALLOC (int_guts (\<lambda>c n. 100)) c k \<noteq> 0"
    by (simp add: a)
  have h3: "(10::int) \<noteq> 0" "(10::int) \<noteq> 20"
    by simp_all
  have h4: "100 = KISS_FFT_TMP_ALLOC (int_guts (\<lambda>c n. 100)) (tmp_allocs ramp_world) (nfft plan4)"
    by (simp add: a)
  have h5: "\<forall>t. 0 \<le> t \<and> t < nfft plan4 \<longrightarrow> mem ramp_world (10 + 1 * t) = mem ramp_world (10 + 1 * t)"
    by simp
  have h6: "\<forall>t. 0 \<le> t \<and> t < nfft plan4 \<longrightarrow> \<not> (20 \<le> 10 + 1 * t \<and> 10 + 1 * t < 20 + nfft plan4)"
    by (simp add: n)
  have h7: "\<forall>t. 0 \<le> t \<and> t < nfft plan4 \<longrightarrow> \<not> (100 \<le> 10 + 1 * t \<and> 10 + 1 * t < 100 + nfft plan4)"
    by (simp add: n)
  note t = kiss_fft_stride_in_place_as_copy [OF h1 h2 h3 h4 h5 h6 h7, THEN conjunct2]
  from t [THEN conjunct2] obtain w1' w2' where
    e: "kiss_fft_stride (int_guts (\<lambda>c n. 100)) plan4 10 20 1 ramp_world = Some w1'"
      "kiss_fft_stride (int_guts (\<lambda>c n. 100)) plan4 10 10 1 ramp_world = Some w2'"
    by (auto simp: n)
  with t [THEN conjunct1] have q: "\<forall>a. 0 \<le> a \<and> a < 4 \<longrightarrow> mem w1' (20 + a) = mem w2' (10 + a)"
    by (simp add: n)
  from q [rule_format, of 0] q [rule_format, of 1] q [rule_format, of 2] q [rule_format, of 3]
  have "map (mem w1') [20, 21, 22, 23] = map (mem w2') [10, 11, 12, 13]"
    by simp
  with e show ?thesis by blast
qed

section \<open>The direction flag and the butterflies\<close>
















end
